theory Spec2Isabelle
  imports Complex_Main "HOL-Library.Code_Target_Nat"
begin

section \<open>Data model (types.ts)\<close>

text \<open>
  JavaScript numbers are modelled as exact rationals (\<open>rat\<close>), byte sizes and pixel
  dimensions of a decoded image as \<open>nat\<close>. IEEE rounding is not modelled; no statement
  below depends on the dimensions that reach the canvas, only on what the canvas answers.
\<close>

datatype js_error = Error string | TypeError string | ReferenceError string | ProgressEvent

text \<open>
  The settlement of a promise: resolved with a value, rejected with an error, or never
  settled (an exception thrown inside a browser callback leaves the promise pending).
\<close>

datatype 'a promise = Resolve 'a | Reject js_error | Hang

fun await :: "'a promise \<Rightarrow> ('a \<Rightarrow> 'b promise) \<Rightarrow> 'b promise" where
  "await (Resolve x) k = k x"
| "await (Reject e) k = Reject e"
| "await Hang k = Hang"

record Blob =
  blob_size :: nat
  blob_type :: string

text \<open>The reduction field: a JavaScript number, which a division by zero makes non-finite.\<close>

datatype js_number = Num rat | PosInfinity | NegInfinity | NaN

record CompressionResult =
  res_blob :: Blob
  res_url :: string
  res_size :: nat
  res_quality :: rat
  res_reduction :: js_number
  res_width :: int
  res_height :: int
  res_format :: string

record CropArea =
  crop_x :: rat
  crop_y :: rat
  crop_width :: rat
  crop_height :: rat

text \<open>
  \<open>suggestedFormat\<close> is read through \<open>analysis.suggestedFormat || 'webp'\<close>, so an absent
  field (\<open>None\<close>) and the empty string are both possible values of the model.
\<close>

record AIAnalysis =
  description :: string
  recommendedQuality :: rat
  focusAreas :: "string list"
  suggestedFormat :: "string option"
  complexityScore :: rat
  savingsEstimate :: string
  smartCropSuggestion :: "CropArea option"

datatype status = idle | analyzing | optimizing | completed | error

record File =
  file_name :: string
  file_size :: nat
  file_type :: string

record ImageFile =
  img_id :: string
  img_file :: File
  img_preview :: string
  img_name :: string
  img_size :: nat
  img_type :: string
  img_width :: nat
  img_height :: nat
  img_status :: status
  img_result :: "CompressionResult option"
  img_analysis :: "AIAnalysis option"
  img_useSmartCrop :: "bool option"

datatype AppState = IDLE | PROCESSING | ERROR

section \<open>String and number helpers of the JavaScript runtime\<close>

text \<open>\<open>s.split(sep)\<close> for a one-character separator: never the empty array.\<close>

fun split_str :: "char \<Rightarrow> string \<Rightarrow> string list" where
  "split_str sep [] = [[]]"
| "split_str sep (c # cs) =
     (if c = sep then [] # split_str sep cs
      else (case split_str sep cs of
              [] \<Rightarrow> [[c]]
            | w # ws \<Rightarrow> (c # w) # ws))"

text \<open>\<open>xs[i]\<close>: \<open>undefined\<close> (here \<open>None\<close>) past the end of the array.\<close>

definition nth_opt :: "'a list \<Rightarrow> nat \<Rightarrow> 'a option" where
  "nth_opt xs i = (if i < length xs then Some (xs ! i) else None)"

text \<open>\<open>toUpperCase\<close> on the ASCII letters (the strings of the model are byte strings).\<close>

definition upper_char :: "char \<Rightarrow> char" where
  "upper_char c =
     (let n = (of_char c :: nat)
      in if 97 \<le> n \<and> n \<le> 122 then char_of (n - 32) else c)"

definition toUpperCase :: "string \<Rightarrow> string" where
  "toUpperCase s = map upper_char s"

text \<open>\<open>Math.round\<close>: the nearest integer, halves rounded up.\<close>

definition js_round :: "rat \<Rightarrow> int" where
  "js_round x = \<lfloor>x + 1 / 2\<rfloor>"

text \<open>\<open>a || b\<close> for an optional number \<open>a\<close>: \<open>undefined\<close> and \<open>0\<close> are falsy.\<close>

definition num_or :: "rat option \<Rightarrow> rat \<Rightarrow> rat" where
  "num_or a b = (case a of None \<Rightarrow> b | Some v \<Rightarrow> if v = 0 then b else v)"

section \<open>The browser's canvas, as the Encoder sees it (lib/imageUtils.ts)\<close>

datatype smoothing = high | medium | low

record drawing =
  dr_src :: string
  dr_sX :: rat
  dr_sY :: rat
  dr_sW :: rat
  dr_sH :: rat
  dr_fW :: rat
  dr_fH :: rat
  dr_smoothing :: smoothing

text \<open>
  What the browser does is not code of the repository; it is a parameter.
  \<open>loadImage\<close> is the decoding of \<open>img.src\<close> (\<open>None\<close>: \<open>onerror\<close> fires),
  \<open>getContext\<close> says whether a canvas of the given size yields a 2d context,
  \<open>toBlob\<close> is the codec (\<open>None\<close>: the callback receives \<open>null\<close>).
\<close>

record browser =
  loadImage :: "string \<Rightarrow> (nat \<times> nat) option"
  getContext :: "rat \<Rightarrow> rat \<Rightarrow> bool"
  toBlob :: "drawing \<Rightarrow> string \<Rightarrow> rat \<Rightarrow> Blob option"
  createObjectURL :: "Blob \<Rightarrow> string"

definition compressImage ::
  "browser \<Rightarrow> string \<Rightarrow> rat \<Rightarrow> string \<Rightarrow> rat \<Rightarrow> rat option \<Rightarrow> rat option \<Rightarrow>
   CropArea option \<Rightarrow> bool \<Rightarrow> CompressionResult promise" where
  "compressImage br imageSrc quality format detailPreservation targetWidth targetHeight
     crop stripMetadata =
   (case loadImage br imageSrc of
      None \<Rightarrow> Reject (Error ''Image load failed'')
    | Some (iw, ih) \<Rightarrow>
       (let sX = (case crop of Some c \<Rightarrow> crop_x c * of_nat iw / 100 | None \<Rightarrow> 0);
            sY = (case crop of Some c \<Rightarrow> crop_y c * of_nat ih / 100 | None \<Rightarrow> 0);
            sW = (case crop of Some c \<Rightarrow> crop_width c * of_nat iw / 100 | None \<Rightarrow> of_nat iw);
            sH = (case crop of Some c \<Rightarrow> crop_height c * of_nat ih / 100 | None \<Rightarrow> of_nat ih);
            fW = num_or targetWidth sW;
            fH = num_or targetHeight sH
        in if \<not> getContext br fW fH then Reject (Error ''Canvas context failed'')
           else
            (let sm = (if detailPreservation > 80 then high
                       else if detailPreservation > 40 then medium else low);
                 exportFormat = (if format = ''image/avif'' then ''image/webp'' else format)
             in case toBlob br
                       \<lparr>dr_src = imageSrc, dr_sX = sX, dr_sY = sY, dr_sW = sW, dr_sH = sH,
                        dr_fW = fW, dr_fH = fH, dr_smoothing = sm\<rparr>
                       exportFormat (quality / 100) of
                  None \<Rightarrow> Reject (Error ''Compression failed'')
                | Some blob \<Rightarrow>
                   (case nth_opt (split_str CHR ''/'' exportFormat) 1 of
                      None \<Rightarrow> Hang
                    | Some f \<Rightarrow>
                       Resolve \<lparr>res_blob = blob, res_url = createObjectURL br blob,
                                res_size = blob_size blob, res_quality = quality,
                                res_reduction = Num 0, res_width = js_round fW,
                                res_height = js_round fH, res_format = toUpperCase f\<rparr>))))"

section \<open>The target-size search (iterativeCompressToTarget)\<close>

text \<open>
  The search is given the browser's behaviour at each of its Encoder calls: \<open>br k\<close>
  answers call number \<open>k\<close> (from 0), so that an Encoder that answers the same request
  differently at different times is covered. Every call is logged in \<open>calls\<close>.
\<close>

type_synonym calls = "CompressionResult promise list"

definition search_format :: "AIAnalysis \<Rightarrow> string" where
  "search_format analysis =
     ''image/'' @ (case suggestedFormat analysis of
                     None \<Rightarrow> ''webp''
                   | Some s \<Rightarrow> if s = [] then ''webp'' else s)"

text \<open>The Encoder call of Stage 1 at quality \<open>q\<close>, and of Stage 2 at scale \<open>s\<close>.\<close>

definition quality_attempt ::
  "browser \<Rightarrow> ImageFile \<Rightarrow> AIAnalysis \<Rightarrow> string \<Rightarrow> int \<Rightarrow> CompressionResult promise" where
  "quality_attempt b img analysis fmt midQ =
     compressImage b (img_preview img) (of_int midQ) fmt 85 None None
       (smartCropSuggestion analysis) True"

definition scale_attempt ::
  "browser \<Rightarrow> ImageFile \<Rightarrow> AIAnalysis \<Rightarrow> string \<Rightarrow> rat \<Rightarrow> CompressionResult promise" where
  "scale_attempt b img analysis fmt midS =
     (let tw = js_round (of_nat (img_width img) * midS);
          th = js_round (of_nat (img_height img) * midS)
      in compressImage b (img_preview img) 40 fmt 80 (Some (of_int tw)) (Some (of_int th))
           (smartCropSuggestion analysis) True)"

function stage1_quality_search ::
  "(nat \<Rightarrow> browser) \<Rightarrow> ImageFile \<Rightarrow> AIAnalysis \<Rightarrow> nat \<Rightarrow> string \<Rightarrow> int \<Rightarrow> int \<Rightarrow>
   CompressionResult option \<Rightarrow> calls \<Rightarrow> CompressionResult option promise \<times> calls" where
  "stage1_quality_search br img analysis target fmt lowQ highQ bestRes calls =
     (if lowQ \<le> highQ then
        (let midQ = (lowQ + highQ) div 2;
             res = quality_attempt (br (length calls)) img analysis fmt midQ
         in case res of
              Resolve r \<Rightarrow>
                if res_size r \<le> target
                then stage1_quality_search br img analysis target fmt (midQ + 1) highQ
                       (Some r) (calls @ [res])
                else stage1_quality_search br img analysis target fmt lowQ (midQ - 1)
                       bestRes (calls @ [res])
            | Reject e \<Rightarrow> (Reject e, calls @ [res])
            | Hang \<Rightarrow> (Hang, calls @ [res]))
      else (Resolve bestRes, calls))"
  by pat_completeness auto
termination
  by (relation "measure (\<lambda>(br, img, analysis, target, fmt, lowQ, highQ, bestRes, calls).
                   nat (highQ - lowQ + 1))") auto

function stage2_scale_search ::
  "(nat \<Rightarrow> browser) \<Rightarrow> ImageFile \<Rightarrow> AIAnalysis \<Rightarrow> nat \<Rightarrow> string \<Rightarrow> nat \<Rightarrow> rat \<Rightarrow> rat \<Rightarrow>
   CompressionResult option \<Rightarrow> calls \<Rightarrow> CompressionResult option promise \<times> calls" where
  "stage2_scale_search br img analysis target fmt iter lowS highS bestRes calls =
     (if iter < 8 then
        (let midS = (lowS + highS) / 2;
             res = scale_attempt (br (length calls)) img analysis fmt midS
         in case res of
              Resolve r \<Rightarrow>
                if res_size r \<le> target
                then stage2_scale_search br img analysis target fmt (iter + 1) midS highS
                       (Some r) (calls @ [res])
                else stage2_scale_search br img analysis target fmt (iter + 1) lowS midS
                       bestRes (calls @ [res])
            | Reject e \<Rightarrow> (Reject e, calls @ [res])
            | Hang \<Rightarrow> (Hang, calls @ [res]))
      else (Resolve bestRes, calls))"
  by pat_completeness auto
termination
  by (relation "measure (\<lambda>(br, img, analysis, target, fmt, iter, lowS, highS, bestRes, calls).
                   8 - iter)") auto

text \<open>The guard of Stage 2: \<open>!bestRes || bestRes.size > target\<close>.\<close>

definition stage2_guard :: "CompressionResult option \<Rightarrow> nat \<Rightarrow> bool" where
  "stage2_guard bestRes target =
     (case bestRes of None \<Rightarrow> True | Some b \<Rightarrow> res_size b > target)"

definition iterativeCompressToTarget ::
  "(nat \<Rightarrow> browser) \<Rightarrow> ImageFile \<Rightarrow> AIAnalysis \<Rightarrow> nat \<Rightarrow>
   CompressionResult option promise \<times> calls" where
  "iterativeCompressToTarget br img analysis target =
     (let fmt = search_format analysis
      in case stage1_quality_search br img analysis target fmt 5 90 None [] of
           (Resolve bestRes, calls) \<Rightarrow>
             if stage2_guard bestRes target
             then stage2_scale_search br img analysis target fmt 0 (1 / 20) (19 / 20)
                    bestRes calls
             else (Resolve bestRes, calls)
         | (Reject e, calls) \<Rightarrow> (Reject e, calls)
         | (Hang, calls) \<Rightarrow> (Hang, calls))"

section \<open>The Analyzer (services/aiService.ts) and the file reader\<close>

text \<open>
  The SDK and the JSON parser are parameters. \<open>newGoogleGenAI\<close> is the outcome of
  the statement that builds the client from \<open>process.env.API_KEY\<close>, which stands
  before the \<open>try\<close> block (\<open>Some e\<close>: it throws \<open>e\<close>); \<open>generateContent\<close> is the
  remote call, answering with \<open>response.text\<close>; \<open>JSON_parse\<close> is taken to yield an
  object of the declared type or to throw.
\<close>

record genai =
  newGoogleGenAI :: "js_error option"
  generateContent :: "string option \<Rightarrow> string \<Rightarrow> js_error + string option"
  JSON_parse :: "string \<Rightarrow> js_error + AIAnalysis"

definition default_analysis :: AIAnalysis where
  "default_analysis =
     \<lparr>description = ''Generic subject.'', recommendedQuality = 75,
      focusAreas = [''Subject''], suggestedFormat = Some ''webp'', complexityScore = 5,
      savingsEstimate = ''40%'',
      smartCropSuggestion = Some \<lparr>crop_x = 0, crop_y = 0, crop_width = 100, crop_height = 100\<rparr>\<rparr>"

definition analyzeImage :: "genai \<Rightarrow> string option \<Rightarrow> string \<Rightarrow> AIAnalysis promise" where
  "analyzeImage ai base64Image mimeType =
     (case newGoogleGenAI ai of
        Some e \<Rightarrow> Reject e
      | None \<Rightarrow>
         (case generateContent ai base64Image mimeType of
            Inl e \<Rightarrow> Resolve default_analysis
          | Inr response_text \<Rightarrow>
             (let body = (case response_text of
                            None \<Rightarrow> ''{}''
                          | Some t \<Rightarrow> if t = [] then ''{}'' else t)
              in case JSON_parse ai body of
                   Inl e \<Rightarrow> Resolve default_analysis
                 | Inr a \<Rightarrow> Resolve a)))"

text \<open>
  The world outside the program during one batch: the file reader
  (\<open>Inl\<close>: \<open>reader.onerror\<close>), the SDK, and the canvas at the k-th Encoder call of
  a search.
\<close>

record world =
  readAsDataURL :: "File \<Rightarrow> js_error + string"
  sdk :: genai
  canvas :: "nat \<Rightarrow> browser"

definition fileToBase64 :: "world \<Rightarrow> File \<Rightarrow> string option promise" where
  "fileToBase64 w f =
     (case readAsDataURL w f of
        Inl e \<Rightarrow> Reject e
      | Inr s \<Rightarrow> Resolve (nth_opt (split_str CHR '','' s) 1))"

section \<open>The batch driver (applyAutoToBatch)\<close>

text \<open>
  The component's state. \<open>progressReports\<close> records every value handed to
  \<open>setProcessingProgress\<close>, in order: it is the signal a progress bar observes.
\<close>

record app =
  imageList :: "ImageFile list"
  appState :: AppState
  processingProgress :: rat
  progressReports :: "rat list"

definition updateImageInList :: "string \<Rightarrow> (ImageFile \<Rightarrow> ImageFile) \<Rightarrow> app \<Rightarrow> app" where
  "updateImageInList ident updates st =
     st\<lparr>imageList := map (\<lambda>img. if img_id img = ident then updates img else img) (imageList st)\<rparr>"

definition setProcessingProgress :: "rat \<Rightarrow> app \<Rightarrow> app" where
  "setProcessingProgress v st =
     st\<lparr>processingProgress := v, progressReports := progressReports st @ [v]\<rparr>"

definition setAppState :: "AppState \<Rightarrow> app \<Rightarrow> app" where
  "setAppState a st = st\<lparr>appState := a\<rparr>"

text \<open>\<open>((img.size - result.size) / img.size) * 100\<close>, with JavaScript's division by zero.\<close>

definition reduction_percent :: "nat \<Rightarrow> nat \<Rightarrow> js_number" where
  "reduction_percent original sz =
     (if original = 0 then (if sz = 0 then NaN else NegInfinity)
      else Num ((of_nat original - of_nat sz) / of_nat original * 100))"

text \<open>
  The awaited part of the \<open>try\<close> block for one item: the analysis (cached, or read
  and analysed now), then the search. \<open>Resolve (Some (analysis, result))\<close> is Found,
  \<open>Resolve None\<close> is NotFound, \<open>Reject e\<close> is a thrown error.
\<close>

definition item_analysis :: "world \<Rightarrow> ImageFile \<Rightarrow> AIAnalysis promise" where
  "item_analysis w img =
     (case img_analysis img of
        Some a \<Rightarrow> Resolve a
      | None \<Rightarrow>
         await (fileToBase64 w (img_file img))
           (\<lambda>base64. analyzeImage (sdk w) base64 (file_type (img_file img))))"

definition auto_item ::
  "world \<Rightarrow> ImageFile \<Rightarrow> nat \<Rightarrow> (AIAnalysis \<times> CompressionResult) option promise" where
  "auto_item w img target =
     await (item_analysis w img)
       (\<lambda>analysis.
          await (fst (iterativeCompressToTarget (canvas w) img analysis target))
            (\<lambda>result. Resolve (case result of
                                  None \<Rightarrow> None
                                | Some r \<Rightarrow> Some (analysis, r))))"

definition mark_completed :: "ImageFile \<Rightarrow> AIAnalysis \<Rightarrow> CompressionResult \<Rightarrow> ImageFile \<Rightarrow> ImageFile" where
  "mark_completed img analysis result x =
     x\<lparr>img_analysis := Some analysis,
       img_result := Some (result\<lparr>res_reduction :=
                                   reduction_percent (img_size img) (res_size result)\<rparr>),
       img_status := completed\<rparr>"

definition mark_error :: "ImageFile \<Rightarrow> ImageFile" where
  "mark_error x = x\<lparr>img_status := error\<rparr>"

definition mark_optimizing :: "ImageFile \<Rightarrow> ImageFile" where
  "mark_optimizing x = x\<lparr>img_status := optimizing\<rparr>"

text \<open>
  One turn of the \<open>for\<close> loop: \<open>img\<close> is read from the list the closure holds
  (\<open>snapshot\<close>), the updates go to the live state by id.
\<close>

definition batch_body :: "world \<Rightarrow> ImageFile list \<Rightarrow> nat \<Rightarrow> nat \<Rightarrow> app \<Rightarrow> app promise" where
  "batch_body w snapshot target i st =
     (let img = snapshot ! i;
          st1 = updateImageInList (img_id img) mark_optimizing st;
          report = setProcessingProgress
                     (of_nat (i + 1) / of_nat (length snapshot) * 100)
      in case auto_item w img target of
           Resolve (Some (analysis, result)) \<Rightarrow>
             Resolve (report (updateImageInList (img_id img)
                                (mark_completed img analysis result) st1))
         | Resolve None \<Rightarrow>
             Resolve (report (updateImageInList (img_id img) mark_error st1))
         | Reject e \<Rightarrow>
             Resolve (report (updateImageInList (img_id img) mark_error st1))
         | Hang \<Rightarrow> Hang)"

function batch_loop :: "world \<Rightarrow> ImageFile list \<Rightarrow> nat \<Rightarrow> nat \<Rightarrow> app \<Rightarrow> app promise" where
  "batch_loop w snapshot target i st =
     (if i < length snapshot then
        (case batch_body w snapshot target i st of
           Resolve st' \<Rightarrow> batch_loop w snapshot target (i + 1) st'
         | Reject e \<Rightarrow> Reject e
         | Hang \<Rightarrow> Hang)
      else Resolve st)"
  by pat_completeness auto
termination
  by (relation "measure (\<lambda>(w, snapshot, target, i, st). length snapshot - i)") auto

definition targetLimit :: nat where
  "targetLimit = 50 * 1024"

definition applyAutoToBatch :: "world \<Rightarrow> app \<Rightarrow> app promise" where
  "applyAutoToBatch w st =
     (if length (imageList st) = 0 then Resolve st
      else
        (case batch_loop w (imageList st) targetLimit 0
                (setProcessingProgress 0 (setAppState PROCESSING st)) of
           Resolve st' \<Rightarrow> Resolve (setAppState IDLE st')
         | Reject e \<Rightarrow> Reject e
         | Hang \<Rightarrow> Hang))"

section \<open>Notions used to state the properties\<close>

text \<open>
  Stage 1 as \<open>iterativeCompressToTarget\<close> starts it, the calls it makes, whether the
  guard of Stage 2 lets the search in, and the calls made after Stage 1.
\<close>

definition stage1_run ::
  "(nat \<Rightarrow> browser) \<Rightarrow> ImageFile \<Rightarrow> AIAnalysis \<Rightarrow> nat \<Rightarrow>
   CompressionResult option promise \<times> calls" where
  "stage1_run br img analysis target =
     stage1_quality_search br img analysis target (search_format analysis) 5 90 None []"

definition stage1_calls :: "(nat \<Rightarrow> browser) \<Rightarrow> ImageFile \<Rightarrow> AIAnalysis \<Rightarrow> nat \<Rightarrow> calls" where
  "stage1_calls br img analysis target = snd (stage1_run br img analysis target)"

definition stage2_entered :: "(nat \<Rightarrow> browser) \<Rightarrow> ImageFile \<Rightarrow> AIAnalysis \<Rightarrow> nat \<Rightarrow> bool" where
  "stage2_entered br img analysis target =
     (case fst (stage1_run br img analysis target) of
        Resolve bestRes \<Rightarrow> stage2_guard bestRes target
      | Reject e \<Rightarrow> False
      | Hang \<Rightarrow> False)"

definition stage2_calls :: "(nat \<Rightarrow> browser) \<Rightarrow> ImageFile \<Rightarrow> AIAnalysis \<Rightarrow> nat \<Rightarrow> calls" where
  "stage2_calls br img analysis target =
     drop (length (stage1_calls br img analysis target))
       (snd (iterativeCompressToTarget br img analysis target))"

text \<open>
  An Encoder call that returned; and the variable \<open>bestRes\<close> as a log of Encoder
  calls leaves it: it starts as null and \<open>if (res.size <= target) bestRes = res\<close> runs
  after each call that returned (lines 126-131).
\<close>

definition resolved :: "'a promise \<Rightarrow> bool" where
  "resolved c = (case c of Resolve r \<Rightarrow> True | Reject e \<Rightarrow> False | Hang \<Rightarrow> False)"

definition record_best ::
  "nat \<Rightarrow> CompressionResult option \<Rightarrow> CompressionResult promise \<Rightarrow> CompressionResult option" where
  "record_best target bestRes res =
     (case res of
        Resolve r \<Rightarrow> if res_size r \<le> target then Some r else bestRes
      | Reject e \<Rightarrow> bestRes
      | Hang \<Rightarrow> bestRes)"

definition recorded_best :: "nat \<Rightarrow> calls \<Rightarrow> CompressionResult option" where
  "recorded_best target cs = foldl (record_best target) None cs"

text \<open>
  What the Encoder produces at quality \<open>q\<close> and native scale, whether it fits the
  target, and the assumption on the Encoder under which bisection is exact: every quality
  from 5 to 90 yields a blob, and a lower quality never a larger one.
\<close>

definition size_at :: "browser \<Rightarrow> ImageFile \<Rightarrow> AIAnalysis \<Rightarrow> int \<Rightarrow> nat option" where
  "size_at b img analysis q =
     (case quality_attempt b img analysis (search_format analysis) q of
        Resolve r \<Rightarrow> Some (res_size r)
      | Reject e \<Rightarrow> None
      | Hang \<Rightarrow> None)"

definition fits_at :: "browser \<Rightarrow> ImageFile \<Rightarrow> AIAnalysis \<Rightarrow> nat \<Rightarrow> int \<Rightarrow> bool" where
  "fits_at b img analysis target q =
     (case size_at b img analysis q of Some s \<Rightarrow> s \<le> target | None \<Rightarrow> False)"

definition monotone_encoder :: "browser \<Rightarrow> ImageFile \<Rightarrow> AIAnalysis \<Rightarrow> bool" where
  "monotone_encoder b img analysis =
     (\<forall>q \<in> {5..90}. \<forall>q' \<in> {q..90}.
        case (size_at b img analysis q, size_at b img analysis q') of
          (Some s, Some s') \<Rightarrow> s \<le> s'
        | _ \<Rightarrow> False)"

text \<open>The invariant that ties the best of Stage 1 to its lower bound.\<close>

definition best_at :: "browser \<Rightarrow> ImageFile \<Rightarrow> AIAnalysis \<Rightarrow> int \<Rightarrow> CompressionResult option \<Rightarrow> bool" where
  "best_at b img analysis lowQ bestRes =
     (if lowQ = 5 then bestRes = None
      else (\<exists>r. quality_attempt b img analysis (search_format analysis) (lowQ - 1) = Resolve r
                \<and> bestRes = Some r))"


text \<open>
  The update the loop applies to an item once its \<open>try\<close> block is over, the item as
  one turn of the loop leaves it, and whether the turn failed (NotFound or a thrown error).
\<close>

definition settle ::
  "ImageFile \<Rightarrow> (AIAnalysis \<times> CompressionResult) option promise \<Rightarrow> ImageFile \<Rightarrow> ImageFile" where
  "settle img outcome =
     (case outcome of
        Resolve (Some (analysis, result)) \<Rightarrow> mark_completed img analysis result
      | Resolve None \<Rightarrow> mark_error
      | Reject e \<Rightarrow> mark_error
      | Hang \<Rightarrow> mark_error)"

definition final_item :: "world \<Rightarrow> nat \<Rightarrow> ImageFile \<Rightarrow> ImageFile" where
  "final_item w target img = settle img (auto_item w img target) (mark_optimizing img)"

definition item_failed :: "world \<Rightarrow> nat \<Rightarrow> ImageFile \<Rightarrow> bool" where
  "item_failed w target img =
     (case auto_item w img target of
        Resolve (Some found) \<Rightarrow> False
      | Resolve None \<Rightarrow> True
      | Reject e \<Rightarrow> True
      | Hang \<Rightarrow> True)"

text \<open>The two states an item can be left in by its turn.\<close>

definition terminal :: "ImageFile \<Rightarrow> bool" where
  "terminal x =
     (img_status x = completed \<and> img_result x \<noteq> None \<or> img_status x = error)"

text \<open>The progress reported after the i-th of n items: \<open>(i / n) * 100\<close>.\<close>

definition report_at :: "nat \<Rightarrow> nat \<Rightarrow> rat" where
  "report_at n i = of_nat i / of_nat n * 100"

text \<open>
  The Analyzer fails inside its \<open>try\<close> block: the remote call throws, or its answer
  does not parse.
\<close>

definition analysis_fails :: "genai \<Rightarrow> string option \<Rightarrow> string \<Rightarrow> bool" where
  "analysis_fails ai base64Image mimeType =
     (case generateContent ai base64Image mimeType of
        Inl e \<Rightarrow> True
      | Inr response_text \<Rightarrow>
         (case JSON_parse ai (case response_text of
                                None \<Rightarrow> ''{}''
                              | Some t \<Rightarrow> if t = [] then ''{}'' else t) of
            Inl e \<Rightarrow> True
          | Inr a \<Rightarrow> False))"

text \<open>What a finished batch leaves, read off the promise it returns.\<close>

definition final_statuses :: "app promise \<Rightarrow> status list option" where
  "final_statuses p =
     (case p of Resolve st \<Rightarrow> Some (map img_status (imageList st)) | Reject e \<Rightarrow> None | Hang \<Rightarrow> None)"

definition final_results :: "app promise \<Rightarrow> CompressionResult option list option" where
  "final_results p =
     (case p of Resolve st \<Rightarrow> Some (map img_result (imageList st)) | Reject e \<Rightarrow> None | Hang \<Rightarrow> None)"

definition final_reports :: "app promise \<Rightarrow> rat list option" where
  "final_reports p =
     (case p of Resolve st \<Rightarrow> Some (progressReports st) | Reject e \<Rightarrow> None | Hang \<Rightarrow> None)"

section \<open>Concrete inputs\<close>

text \<open>
  A canvas over an 800 x 600 image whose blobs weigh \<open>c\<close> bytes per pixel at quality
  100 and proportionally less below; a canvas whose codec hands back \<open>null\<close>; a canvas
  that works except at the seventh call of a search.
\<close>

definition demo_canvas :: "rat \<Rightarrow> browser" where
  "demo_canvas c =
     \<lparr>loadImage = (\<lambda>src. Some (800, 600)),
      getContext = (\<lambda>fW fH. True),
      toBlob = (\<lambda>d ty q. Some \<lparr>blob_size = nat \<lfloor>q * dr_fW d * dr_fH d * c\<rfloor>, blob_type = ty\<rparr>),
      createObjectURL = (\<lambda>b. ''blob:demo'')\<rparr>"

definition broken_canvas :: browser where
  "broken_canvas =
     \<lparr>loadImage = (\<lambda>src. Some (800, 600)),
      getContext = (\<lambda>fW fH. True),
      toBlob = (\<lambda>d ty q. None),
      createObjectURL = (\<lambda>b. ''blob:demo'')\<rparr>"

definition flaky_canvas :: "nat \<Rightarrow> browser" where
  "flaky_canvas k = (if k = 6 then broken_canvas else demo_canvas 3)"

text \<open>A canvas that works except at the fourteenth call of a search.\<close>

definition late_flaky_canvas :: "nat \<Rightarrow> browser" where
  "late_flaky_canvas k = (if k = 13 then broken_canvas else demo_canvas 3)"

definition demo_image :: ImageFile where
  "demo_image =
     \<lparr>img_id = ''a1'',
      img_file = \<lparr>file_name = ''a.png'', file_size = 400000, file_type = ''image/png''\<rparr>,
      img_preview = ''blob:a1'', img_name = ''a.png'', img_size = 400000,
      img_type = ''image/png'', img_width = 800, img_height = 600, img_status = idle,
      img_result = None, img_analysis = None, img_useSmartCrop = Some False\<rparr>"

text \<open>What the search finds on the canvas of 3 bytes per pixel, at scale 19/64.\<close>

definition demo3_result :: CompressionResult where
  "demo3_result =
     \<lparr>res_blob = \<lparr>blob_size = 50623, blob_type = ''image/webp''\<rparr>,
      res_url = ''blob:demo'', res_size = 50623, res_quality = 40,
      res_reduction = Num 0, res_width = 237, res_height = 178,
      res_format = ''WEBP''\<rparr>"

text \<open>What Stage 1 finds on the canvas of half a byte per pixel, at quality 21.\<close>

definition demo_half_result :: CompressionResult where
  "demo_half_result =
     \<lparr>res_blob = \<lparr>blob_size = 50400, blob_type = ''image/webp''\<rparr>,
      res_url = ''blob:demo'', res_size = 50400, res_quality = 21,
      res_reduction = Num 0, res_width = 800, res_height = 600,
      res_format = ''WEBP''\<rparr>"

text \<open>The default analysis, but suggesting avif.\<close>

definition avif_analysis :: AIAnalysis where
  "avif_analysis = default_analysis\<lparr>suggestedFormat := Some ''avif''\<rparr>"

text \<open>
  A canvas that cannot bring the image \<open>blob:a1\<close> under 900000 bytes and encodes any
  other image in 1000 bytes; an SDK whose remote call fails, and one whose client cannot
  be built; the worlds made of them; a second image, an image that already carries a
  result (as the live preview leaves it), and the state of the component around a queue.
\<close>

definition mixed_canvas :: browser where
  "mixed_canvas =
     \<lparr>loadImage = (\<lambda>src. Some (800, 600)),
      getContext = (\<lambda>fW fH. True),
      toBlob = (\<lambda>d ty q. Some \<lparr>blob_size = (if dr_src d = ''blob:a1'' then 900000 else 1000),
                                 blob_type = ty\<rparr>),
      createObjectURL = (\<lambda>b. ''blob:demo'')\<rparr>"

definition remote_down_sdk :: genai where
  "remote_down_sdk =
     \<lparr>newGoogleGenAI = None,
      generateContent = (\<lambda>d m. Inl (Error ''Failed to fetch'')),
      JSON_parse = (\<lambda>s. Inl (Error ''Unexpected end of JSON input''))\<rparr>"

definition keyless_sdk :: genai where
  "keyless_sdk =
     \<lparr>newGoogleGenAI = Some (Error ''An API Key must be set when running in a browser''),
      generateContent = (\<lambda>d m. Inl (Error ''Failed to fetch'')),
      JSON_parse = (\<lambda>s. Inl (Error ''Unexpected end of JSON input''))\<rparr>"

definition demo_world :: world where
  "demo_world =
     \<lparr>readAsDataURL = (\<lambda>f. Inr ''data:image/png;base64,AAAA''),
      sdk = remote_down_sdk,
      canvas = (\<lambda>k. mixed_canvas)\<rparr>"

definition keyless_world :: world where
  "keyless_world = demo_world\<lparr>sdk := keyless_sdk\<rparr>"

definition demo_image2 :: ImageFile where
  "demo_image2 = demo_image\<lparr>img_id := ''b2'', img_preview := ''blob:b2'', img_name := ''b.png''\<rparr>"

definition previewed_image :: ImageFile where
  "previewed_image = demo_image\<lparr>img_result := Some demo3_result\<rparr>"

definition demo_app :: "ImageFile list \<Rightarrow> app" where
  "demo_app imgs =
     \<lparr>imageList = imgs, appState = IDLE, processingProgress = 0, progressReports = []\<rparr>"

definition demo_b2_result :: CompressionResult where
  "demo_b2_result =
     \<lparr>res_blob = \<lparr>blob_size = 1000, blob_type = ''image/webp''\<rparr>,
      res_url = ''blob:demo'', res_size = 1000, res_quality = 90,
      res_reduction = Num 0, res_width = 800, res_height = 600,
      res_format = ''WEBP''\<rparr>"

section \<open>Promises that settle\<close>

declare stage1_quality_search.simps [simp del]
declare stage2_scale_search.simps [simp del]
declare batch_loop.simps [simp del]

lemma split_str_nonempty: "split_str sep s \<noteq> []"
  by (induction s) (auto split: list.splits)

lemma nth_opt_image: "\<exists>f. nth_opt (split_str CHR ''/'' (''image/'' @ s)) 1 = Some f"
proof -
  obtain w ws where "split_str CHR ''/'' s = w # ws"
    using split_str_nonempty [of "CHR ''/''" s] by (cases "split_str CHR ''/'' s") auto
  then show ?thesis
    by (simp add: nth_opt_def)
qed

lemma compressImage_image_settles:
  "compressImage b src q (''image/'' @ s) d tw th crop sm \<noteq> Hang"
proof -
  obtain f where f: "nth_opt (split_str CHR ''/'' (''image/'' @ s)) 1 = Some f"
    using nth_opt_image by blast
  have g: "nth_opt (split_str CHR ''/'' ''image/webp'') 1 = Some ''webp''"
    by (simp add: nth_opt_def)
  show ?thesis
    unfolding compressImage_def using f g
    by (auto simp: Let_def split: option.splits prod.splits)
qed

lemma search_format_image: "\<exists>s. search_format analysis = ''image/'' @ s"
  by (simp add: search_format_def)

lemma quality_attempt_settles:
  "quality_attempt b img analysis (search_format analysis) q \<noteq> Hang"
  using search_format_image [of analysis] compressImage_image_settles
  by (auto simp: quality_attempt_def)

lemma scale_attempt_settles:
  "scale_attempt b img analysis (search_format analysis) s \<noteq> Hang"
  using search_format_image [of analysis] compressImage_image_settles
  by (auto simp: scale_attempt_def Let_def)

subsection \<open>Stage 1, one turn at a time\<close>

lemma stage1_exit:
  "\<not> lowQ \<le> highQ \<Longrightarrow>
   stage1_quality_search br img analysis target fmt lowQ highQ bestRes calls = (Resolve bestRes, calls)"
  by (subst stage1_quality_search.simps) simp

lemma stage1_fits:
  "lowQ \<le> highQ \<Longrightarrow>
   quality_attempt (br (length calls)) img analysis fmt ((lowQ + highQ) div 2) = Resolve r \<Longrightarrow>
   res_size r \<le> target \<Longrightarrow>
   stage1_quality_search br img analysis target fmt lowQ highQ bestRes calls =
   stage1_quality_search br img analysis target fmt ((lowQ + highQ) div 2 + 1) highQ (Some r)
     (calls @ [Resolve r])"
  by (subst stage1_quality_search.simps) (simp add: Let_def)

lemma stage1_too_big:
  "lowQ \<le> highQ \<Longrightarrow>
   quality_attempt (br (length calls)) img analysis fmt ((lowQ + highQ) div 2) = Resolve r \<Longrightarrow>
   \<not> res_size r \<le> target \<Longrightarrow>
   stage1_quality_search br img analysis target fmt lowQ highQ bestRes calls =
   stage1_quality_search br img analysis target fmt lowQ ((lowQ + highQ) div 2 - 1) bestRes
     (calls @ [Resolve r])"
  by (subst stage1_quality_search.simps) (simp add: Let_def)

lemma stage1_rejected:
  "lowQ \<le> highQ \<Longrightarrow>
   quality_attempt (br (length calls)) img analysis fmt ((lowQ + highQ) div 2) = Reject e \<Longrightarrow>
   stage1_quality_search br img analysis target fmt lowQ highQ bestRes calls =
   (Reject e, calls @ [Reject e])"
  by (subst stage1_quality_search.simps) (simp add: Let_def)

lemma stage1_hung:
  "lowQ \<le> highQ \<Longrightarrow>
   quality_attempt (br (length calls)) img analysis fmt ((lowQ + highQ) div 2) = Hang \<Longrightarrow>
   stage1_quality_search br img analysis target fmt lowQ highQ bestRes calls =
   (Hang, calls @ [Hang])"
  by (subst stage1_quality_search.simps) (simp add: Let_def)

lemma stage1_induct [case_names exit fits too_big rejected hung]:
  assumes "\<And>lowQ highQ bestRes calls. \<not> lowQ \<le> highQ \<Longrightarrow> P lowQ highQ bestRes calls"
    and "\<And>lowQ highQ bestRes calls r.
           lowQ \<le> highQ \<Longrightarrow>
           quality_attempt (br (length calls)) img analysis fmt ((lowQ + highQ) div 2) = Resolve r \<Longrightarrow>
           res_size r \<le> target \<Longrightarrow>
           P ((lowQ + highQ) div 2 + 1) highQ (Some r) (calls @ [Resolve r]) \<Longrightarrow>
           P lowQ highQ bestRes calls"
    and "\<And>lowQ highQ bestRes calls r.
           lowQ \<le> highQ \<Longrightarrow>
           quality_attempt (br (length calls)) img analysis fmt ((lowQ + highQ) div 2) = Resolve r \<Longrightarrow>
           \<not> res_size r \<le> target \<Longrightarrow>
           P lowQ ((lowQ + highQ) div 2 - 1) bestRes (calls @ [Resolve r]) \<Longrightarrow>
           P lowQ highQ bestRes calls"
    and "\<And>lowQ highQ bestRes calls e.
           lowQ \<le> highQ \<Longrightarrow>
           quality_attempt (br (length calls)) img analysis fmt ((lowQ + highQ) div 2) = Reject e \<Longrightarrow>
           P lowQ highQ bestRes calls"
    and "\<And>lowQ highQ bestRes calls.
           lowQ \<le> highQ \<Longrightarrow>
           quality_attempt (br (length calls)) img analysis fmt ((lowQ + highQ) div 2) = Hang \<Longrightarrow>
           P lowQ highQ bestRes calls"
  shows "P lowQ highQ bestRes calls"
proof -
  have "\<forall>lo hi b cs. nat (hi - lo + 1) \<le> n \<longrightarrow> P lo hi b cs" for n
  proof (induct n)
    case 0
    show ?case
    proof (intro allI impI)
      fix lo hi :: int and b cs
      assume "nat (hi - lo + 1) \<le> 0"
      then have "\<not> lo \<le> hi" by linarith
      then show "P lo hi b cs" by (rule assms(1))
    qed
  next
    case (Suc n)
    show ?case
    proof (intro allI impI)
      fix lo hi :: int and b cs
      assume bound: "nat (hi - lo + 1) \<le> Suc n"
      show "P lo hi b cs"
      proof (cases "lo \<le> hi")
        case False
        then show ?thesis by (rule assms(1))
      next
        case inside: True
        show ?thesis
        proof (cases "quality_attempt (br (length cs)) img analysis fmt ((lo + hi) div 2)")
          case (Resolve r)
          show ?thesis
          proof (cases "res_size r \<le> target")
            case True
            have "nat (hi - ((lo + hi) div 2 + 1) + 1) \<le> n"
              using bound inside by linarith
            with Suc have "P ((lo + hi) div 2 + 1) hi (Some r) (cs @ [Resolve r])"
              by blast
            then show ?thesis
              by (rule assms(2) [OF inside Resolve True])
          next
            case False
            have "nat ((lo + hi) div 2 - 1 - lo + 1) \<le> n"
              using bound inside by linarith
            with Suc have "P lo ((lo + hi) div 2 - 1) b (cs @ [Resolve r])"
              by blast
            then show ?thesis
              by (rule assms(3) [OF inside Resolve False])
          qed
        next
          case (Reject e)
          then show ?thesis by (intro assms(4) [OF inside])
        next
          case Hang
          then show ?thesis by (intro assms(5) [OF inside])
        qed
      qed
    qed
  qed
  then show ?thesis by blast
qed

lemma stage1_settles:
  assumes "\<And>b q. quality_attempt b img analysis fmt q \<noteq> Hang"
  shows "fst (stage1_quality_search br img analysis target fmt lowQ highQ bestRes calls) \<noteq> Hang"
proof (induction lowQ highQ bestRes calls
    rule: stage1_induct [where br = br and img = img and analysis = analysis and fmt = fmt
      and target = target])
  case (exit lowQ highQ bestRes calls)
  then show ?case by (simp add: stage1_exit)
next
  case (fits lowQ highQ bestRes calls r)
  then show ?case by (simp add: stage1_fits)
next
  case (too_big lowQ highQ bestRes calls r)
  then show ?case by (simp add: stage1_too_big)
next
  case (rejected lowQ highQ bestRes calls e)
  then show ?case by (simp add: stage1_rejected)
next
  case (hung lowQ highQ bestRes calls)
  then show ?case using assms by simp
qed


lemma stage1_count:
  "highQ - lowQ + 1 < 2 ^ k \<Longrightarrow>
   length (snd (stage1_quality_search br img analysis target fmt lowQ highQ bestRes calls))
     \<le> length calls + k"
proof (induction lowQ highQ bestRes calls arbitrary: k
    rule: stage1_induct [where br = br and img = img and analysis = analysis and fmt = fmt
      and target = target])
  case (exit lowQ highQ bestRes calls)
  then show ?case by (simp add: stage1_exit)
next
  case (fits lowQ highQ bestRes calls r)
  from fits.prems fits.hyps(1) obtain k' where k: "k = Suc k'"
    by (cases k) auto
  have "highQ - ((lowQ + highQ) div 2 + 1) + 1 < 2 ^ k'"
    using fits.prems fits.hyps(1) unfolding k by simp
  from fits.IH [OF this] show ?case
    by (simp add: stage1_fits fits.hyps k)
next
  case (too_big lowQ highQ bestRes calls r)
  from too_big.prems too_big.hyps(1) obtain k' where k: "k = Suc k'"
    by (cases k) auto
  have "(lowQ + highQ) div 2 - 1 - lowQ + 1 < 2 ^ k'"
    using too_big.prems too_big.hyps(1) unfolding k by simp
  from too_big.IH [OF this] show ?case
    by (simp add: stage1_too_big too_big.hyps k)
next
  case (rejected lowQ highQ bestRes calls e)
  from rejected.prems rejected.hyps(1) obtain k' where k: "k = Suc k'"
    by (cases k) auto
  then show ?case using rejected by (simp add: stage1_rejected)
next
  case (hung lowQ highQ bestRes calls)
  from hung.prems hung.hyps(1) obtain k' where k: "k = Suc k'"
    by (cases k) auto
  then show ?case using hung by (simp add: stage1_hung)
qed

lemma stage1_at_most_7:
  "length (snd (stage1_quality_search br img analysis target fmt 5 90 None [])) \<le> 7"
  using stage1_count [of 90 5 7 br img analysis target fmt None "[]"] by simp


lemma stage1_best:
  assumes "\<And>k q r. quality_attempt (br k) img analysis fmt q = Resolve r \<Longrightarrow>
             res_size r \<le> target \<Longrightarrow> Q r"
  shows "(\<forall>b. bestRes = Some b \<longrightarrow> Q b) \<Longrightarrow>
         fst (stage1_quality_search br img analysis target fmt lowQ highQ bestRes calls)
           = Resolve (Some r) \<Longrightarrow> Q r"
proof (induction lowQ highQ bestRes calls
    rule: stage1_induct [where br = br and img = img and analysis = analysis and fmt = fmt
      and target = target])
  case (exit lowQ highQ bestRes calls)
  then show ?case by (simp add: stage1_exit)
next
  case (fits lowQ highQ bestRes calls r')
  from assms [OF fits.hyps(2,3)] fits.IH fits.prems(2) show ?case
    by (simp add: stage1_fits fits.hyps)
next
  case (too_big lowQ highQ bestRes calls r')
  from too_big.IH too_big.prems show ?case
    by (simp add: stage1_too_big too_big.hyps)
next
  case (rejected lowQ highQ bestRes calls e)
  then show ?case by (simp add: stage1_rejected)
next
  case (hung lowQ highQ bestRes calls)
  then show ?case by (simp add: stage1_hung)
qed



text \<open>The log of a stage, by its outcome.\<close>

lemma resolved_simps [simp]:
  "resolved (Resolve r)" "\<not> resolved (Reject e)" "\<not> resolved Hang"
  by (simp_all add: resolved_def)

lemma record_best_simps [simp]:
  "res_size r \<le> target \<Longrightarrow> record_best target bestRes (Resolve r) = Some r"
  "\<not> res_size r \<le> target \<Longrightarrow> record_best target bestRes (Resolve r) = bestRes"
  by (simp_all add: record_best_def)

lemma recorded_fits:
  "(\<forall>b. bestRes = Some b \<longrightarrow> res_size b \<le> target) \<Longrightarrow>
   foldl (record_best target) bestRes cs = Some b \<Longrightarrow> res_size b \<le> target"
  by (induction cs arbitrary: bestRes) (auto simp: record_best_def split: promise.splits if_splits)

lemma not_all_resolved:
  "cs \<noteq> [] \<Longrightarrow> last cs = Reject e \<Longrightarrow> \<not> list_all resolved cs"
  by (induction cs) (auto split: if_splits)

lemma stage1_shape:
  "\<exists>new. snd (stage1_quality_search br img analysis target fmt lowQ highQ bestRes calls)
            = calls @ new
     \<and> (case fst (stage1_quality_search br img analysis target fmt lowQ highQ bestRes calls) of
          Resolve best \<Rightarrow> list_all resolved new \<and> best = foldl (record_best target) bestRes new
        | Reject e \<Rightarrow> new \<noteq> [] \<and> last new = Reject e \<and> list_all resolved (butlast new)
        | Hang \<Rightarrow> True)"
proof (induction lowQ highQ bestRes calls
    rule: stage1_induct [where br = br and img = img and analysis = analysis and fmt = fmt
      and target = target])
  case (exit lowQ highQ bestRes calls)
  then show ?case by (simp add: stage1_exit)
next
  case (fits lowQ highQ bestRes calls r)
  from fits.IH obtain new where
    s: "snd (stage1_quality_search br img analysis target fmt ((lowQ + highQ) div 2 + 1) highQ
          (Some r) (calls @ [Resolve r])) = (calls @ [Resolve r]) @ new"
    and c: "case fst (stage1_quality_search br img analysis target fmt ((lowQ + highQ) div 2 + 1)
          highQ (Some r) (calls @ [Resolve r])) of
          Resolve best \<Rightarrow> list_all resolved new \<and> best = foldl (record_best target) (Some r) new
        | Reject e \<Rightarrow> new \<noteq> [] \<and> last new = Reject e \<and> list_all resolved (butlast new)
        | Hang \<Rightarrow> True"
    by blast
  show ?case
    apply (rule exI [of _ "Resolve r # new"])
    using s c fits.hyps
    by (simp add: stage1_fits split: promise.splits)
next
  case (too_big lowQ highQ bestRes calls r)
  from too_big.IH obtain new where
    s: "snd (stage1_quality_search br img analysis target fmt lowQ ((lowQ + highQ) div 2 - 1)
          bestRes (calls @ [Resolve r])) = (calls @ [Resolve r]) @ new"
    and c: "case fst (stage1_quality_search br img analysis target fmt lowQ
          ((lowQ + highQ) div 2 - 1) bestRes (calls @ [Resolve r])) of
          Resolve best \<Rightarrow> list_all resolved new \<and> best = foldl (record_best target) bestRes new
        | Reject e \<Rightarrow> new \<noteq> [] \<and> last new = Reject e \<and> list_all resolved (butlast new)
        | Hang \<Rightarrow> True"
    by blast
  show ?case
    apply (rule exI [of _ "Resolve r # new"])
    using s c too_big.hyps
    by (simp add: stage1_too_big split: promise.splits)
next
  case (rejected lowQ highQ bestRes calls e)
  then show ?case by (simp add: stage1_rejected)
next
  case (hung lowQ highQ bestRes calls)
  then show ?case by (simp add: stage1_hung)
qed


subsection \<open>Stage 2, one turn at a time\<close>

lemma stage2_exit:
  "\<not> iter < 8 \<Longrightarrow>
   stage2_scale_search br img analysis target fmt iter lowS highS bestRes calls
     = (Resolve bestRes, calls)"
  by (subst stage2_scale_search.simps) simp

lemma stage2_fits:
  "iter < 8 \<Longrightarrow>
   scale_attempt (br (length calls)) img analysis fmt ((lowS + highS) / 2) = Resolve r \<Longrightarrow>
   res_size r \<le> target \<Longrightarrow>
   stage2_scale_search br img analysis target fmt iter lowS highS bestRes calls =
   stage2_scale_search br img analysis target fmt (iter + 1) ((lowS + highS) / 2) highS (Some r)
     (calls @ [Resolve r])"
  by (subst stage2_scale_search.simps) (simp add: Let_def)

lemma stage2_too_big:
  "iter < 8 \<Longrightarrow>
   scale_attempt (br (length calls)) img analysis fmt ((lowS + highS) / 2) = Resolve r \<Longrightarrow>
   \<not> res_size r \<le> target \<Longrightarrow>
   stage2_scale_search br img analysis target fmt iter lowS highS bestRes calls =
   stage2_scale_search br img analysis target fmt (iter + 1) lowS ((lowS + highS) / 2) bestRes
     (calls @ [Resolve r])"
  by (subst stage2_scale_search.simps) (simp add: Let_def)

lemma stage2_rejected:
  "iter < 8 \<Longrightarrow>
   scale_attempt (br (length calls)) img analysis fmt ((lowS + highS) / 2) = Reject e \<Longrightarrow>
   stage2_scale_search br img analysis target fmt iter lowS highS bestRes calls =
   (Reject e, calls @ [Reject e])"
  by (subst stage2_scale_search.simps) (simp add: Let_def)

lemma stage2_hung:
  "iter < 8 \<Longrightarrow>
   scale_attempt (br (length calls)) img analysis fmt ((lowS + highS) / 2) = Hang \<Longrightarrow>
   stage2_scale_search br img analysis target fmt iter lowS highS bestRes calls =
   (Hang, calls @ [Hang])"
  by (subst stage2_scale_search.simps) (simp add: Let_def)

lemma stage2_induct [case_names exit fits too_big rejected hung]:
  assumes "\<And>iter lowS highS bestRes calls.
             \<not> iter < (8::nat) \<Longrightarrow> P iter lowS highS bestRes calls"
    and "\<And>iter lowS highS bestRes calls r.
           iter < 8 \<Longrightarrow>
           scale_attempt (br (length calls)) img analysis fmt ((lowS + highS) / 2) = Resolve r \<Longrightarrow>
           res_size r \<le> target \<Longrightarrow>
           P (iter + 1) ((lowS + highS) / 2) highS (Some r) (calls @ [Resolve r]) \<Longrightarrow>
           P iter lowS highS bestRes calls"
    and "\<And>iter lowS highS bestRes calls r.
           iter < 8 \<Longrightarrow>
           scale_attempt (br (length calls)) img analysis fmt ((lowS + highS) / 2) = Resolve r \<Longrightarrow>
           \<not> res_size r \<le> target \<Longrightarrow>
           P (iter + 1) lowS ((lowS + highS) / 2) bestRes (calls @ [Resolve r]) \<Longrightarrow>
           P iter lowS highS bestRes calls"
    and "\<And>iter lowS highS bestRes calls e.
           iter < 8 \<Longrightarrow>
           scale_attempt (br (length calls)) img analysis fmt ((lowS + highS) / 2) = Reject e \<Longrightarrow>
           P iter lowS highS bestRes calls"
    and "\<And>iter lowS highS bestRes calls.
           iter < 8 \<Longrightarrow>
           scale_attempt (br (length calls)) img analysis fmt ((lowS + highS) / 2) = Hang \<Longrightarrow>
           P iter lowS highS bestRes calls"
  shows "P iter lowS highS bestRes calls"
proof -
  have "\<forall>it lo hi b cs. 8 - it \<le> n \<longrightarrow> P it lo hi b cs" for n
  proof (induct n)
    case 0
    show ?case
    proof (intro allI impI)
      fix it :: nat and lo hi :: rat and b cs
      assume "8 - it \<le> 0"
      then have "\<not> it < 8" by linarith
      then show "P it lo hi b cs" by (rule assms(1))
    qed
  next
    case (Suc n)
    show ?case
    proof (intro allI impI)
      fix it :: nat and lo hi :: rat and b cs
      assume bound: "8 - it \<le> Suc n"
      show "P it lo hi b cs"
      proof (cases "it < 8")
        case False
        then show ?thesis by (rule assms(1))
      next
        case inside: True
        have less: "8 - (it + 1) \<le> n"
          using bound inside by linarith
        show ?thesis
        proof (cases "scale_attempt (br (length cs)) img analysis fmt ((lo + hi) / 2)")
          case (Resolve r)
          show ?thesis
          proof (cases "res_size r \<le> target")
            case True
            from Suc less have "P (it + 1) ((lo + hi) / 2) hi (Some r) (cs @ [Resolve r])"
              by blast
            then show ?thesis
              by (rule assms(2) [OF inside Resolve True])
          next
            case False
            from Suc less have "P (it + 1) lo ((lo + hi) / 2) b (cs @ [Resolve r])"
              by blast
            then show ?thesis
              by (rule assms(3) [OF inside Resolve False])
          qed
        next
          case (Reject e)
          then show ?thesis by (intro assms(4) [OF inside])
        next
          case Hang
          then show ?thesis by (intro assms(5) [OF inside])
        qed
      qed
    qed
  qed
  then show ?thesis by blast
qed

lemma stage2_settles:
  assumes "\<And>b s. scale_attempt b img analysis fmt s \<noteq> Hang"
  shows "fst (stage2_scale_search br img analysis target fmt iter lowS highS bestRes calls) \<noteq> Hang"
proof (induction iter lowS highS bestRes calls
    rule: stage2_induct [where br = br and img = img and analysis = analysis and fmt = fmt
      and target = target])
  case (exit iter lowS highS bestRes calls)
  then show ?case by (simp add: stage2_exit)
next
  case (fits iter lowS highS bestRes calls r)
  then show ?case by (simp add: stage2_fits)
next
  case (too_big iter lowS highS bestRes calls r)
  then show ?case by (simp add: stage2_too_big)
next
  case (rejected iter lowS highS bestRes calls e)
  then show ?case by (simp add: stage2_rejected)
next
  case (hung iter lowS highS bestRes calls)
  then show ?case using assms by simp
qed

lemma stage2_extends:
  "\<exists>new. snd (stage2_scale_search br img analysis target fmt iter lowS highS bestRes calls)
     = calls @ new"
proof (induction iter lowS highS bestRes calls
    rule: stage2_induct [where br = br and img = img and analysis = analysis and fmt = fmt
      and target = target])
  case (exit iter lowS highS bestRes calls)
  then show ?case by (simp add: stage2_exit)
next
  case (fits iter lowS highS bestRes calls r)
  then show ?case by (auto simp add: stage2_fits)
next
  case (too_big iter lowS highS bestRes calls r)
  then show ?case by (auto simp add: stage2_too_big)
next
  case (rejected iter lowS highS bestRes calls e)
  then show ?case by (simp add: stage2_rejected)
next
  case (hung iter lowS highS bestRes calls)
  then show ?case by (simp add: stage2_hung)
qed

lemma stage2_count:
  "length (snd (stage2_scale_search br img analysis target fmt iter lowS highS bestRes calls))
     \<le> length calls + (8 - iter)"
proof (induction iter lowS highS bestRes calls
    rule: stage2_induct [where br = br and img = img and analysis = analysis and fmt = fmt
      and target = target])
  case (exit iter lowS highS bestRes calls)
  then show ?case by (simp add: stage2_exit)
next
  case (fits iter lowS highS bestRes calls r)
  then show ?case by (simp add: stage2_fits)
next
  case (too_big iter lowS highS bestRes calls r)
  then show ?case by (simp add: stage2_too_big)
next
  case (rejected iter lowS highS bestRes calls e)
  then show ?case by (simp add: stage2_rejected)
next
  case (hung iter lowS highS bestRes calls)
  then show ?case by (simp add: stage2_hung)
qed

lemma stage2_count_resolved:
  "fst (stage2_scale_search br img analysis target fmt iter lowS highS bestRes calls)
     = Resolve best \<Longrightarrow>
   length (snd (stage2_scale_search br img analysis target fmt iter lowS highS bestRes calls))
     = length calls + (8 - iter)"
proof (induction iter lowS highS bestRes calls
    rule: stage2_induct [where br = br and img = img and analysis = analysis and fmt = fmt
      and target = target])
  case (exit iter lowS highS bestRes calls)
  then show ?case by (simp add: stage2_exit)
next
  case (fits iter lowS highS bestRes calls r)
  then show ?case by (simp add: stage2_fits)
next
  case (too_big iter lowS highS bestRes calls r)
  then show ?case by (simp add: stage2_too_big)
next
  case (rejected iter lowS highS bestRes calls e)
  then show ?case by (simp add: stage2_rejected)
next
  case (hung iter lowS highS bestRes calls)
  then show ?case by (simp add: stage2_hung)
qed

lemma stage2_best:
  assumes "\<And>k s r. scale_attempt (br k) img analysis fmt s = Resolve r \<Longrightarrow>
             res_size r \<le> target \<Longrightarrow> Q r"
  shows "(\<forall>b. bestRes = Some b \<longrightarrow> Q b) \<Longrightarrow>
         fst (stage2_scale_search br img analysis target fmt iter lowS highS bestRes calls)
           = Resolve (Some r) \<Longrightarrow> Q r"
proof (induction iter lowS highS bestRes calls
    rule: stage2_induct [where br = br and img = img and analysis = analysis and fmt = fmt
      and target = target])
  case (exit iter lowS highS bestRes calls)
  then show ?case by (simp add: stage2_exit)
next
  case (fits iter lowS highS bestRes calls r')
  from assms [OF fits.hyps(2,3)] fits.IH fits.prems(2) show ?case
    by (simp add: stage2_fits fits.hyps)
next
  case (too_big iter lowS highS bestRes calls r')
  from too_big.IH too_big.prems show ?case
    by (simp add: stage2_too_big too_big.hyps)
next
  case (rejected iter lowS highS bestRes calls e)
  then show ?case by (simp add: stage2_rejected)
next
  case (hung iter lowS highS bestRes calls)
  then show ?case by (simp add: stage2_hung)
qed



lemma stage2_shape:
  "\<exists>new. snd (stage2_scale_search br img analysis target fmt iter lowS highS bestRes calls)
            = calls @ new
     \<and> (case fst (stage2_scale_search br img analysis target fmt iter lowS highS bestRes calls) of
          Resolve best \<Rightarrow> list_all resolved new \<and> length new = 8 - iter
        | Reject e \<Rightarrow> new \<noteq> [] \<and> last new = Reject e \<and> list_all resolved (butlast new)
        | Hang \<Rightarrow> True)"
proof (induction iter lowS highS bestRes calls
    rule: stage2_induct [where br = br and img = img and analysis = analysis and fmt = fmt
      and target = target])
  case (exit iter lowS highS bestRes calls)
  then show ?case by (simp add: stage2_exit)
next
  case (fits iter lowS highS bestRes calls r)
  from fits.IH obtain new where
    s: "snd (stage2_scale_search br img analysis target fmt (iter + 1) ((lowS + highS) / 2) highS
          (Some r) (calls @ [Resolve r])) = (calls @ [Resolve r]) @ new"
    and c: "case fst (stage2_scale_search br img analysis target fmt (iter + 1)
          ((lowS + highS) / 2) highS (Some r) (calls @ [Resolve r])) of
          Resolve best \<Rightarrow> list_all resolved new \<and> length new = 8 - (iter + 1)
        | Reject e \<Rightarrow> new \<noteq> [] \<and> last new = Reject e \<and> list_all resolved (butlast new)
        | Hang \<Rightarrow> True"
    by blast
  show ?case
    apply (rule exI [of _ "Resolve r # new"])
    using s c fits.hyps
    by (auto simp add: stage2_fits split: promise.splits)
next
  case (too_big iter lowS highS bestRes calls r)
  from too_big.IH obtain new where
    s: "snd (stage2_scale_search br img analysis target fmt (iter + 1) lowS ((lowS + highS) / 2)
          bestRes (calls @ [Resolve r])) = (calls @ [Resolve r]) @ new"
    and c: "case fst (stage2_scale_search br img analysis target fmt (iter + 1) lowS
          ((lowS + highS) / 2) bestRes (calls @ [Resolve r])) of
          Resolve best \<Rightarrow> list_all resolved new \<and> length new = 8 - (iter + 1)
        | Reject e \<Rightarrow> new \<noteq> [] \<and> last new = Reject e \<and> list_all resolved (butlast new)
        | Hang \<Rightarrow> True"
    by blast
  show ?case
    apply (rule exI [of _ "Resolve r # new"])
    using s c too_big.hyps
    by (auto simp add: stage2_too_big split: promise.splits)
next
  case (rejected iter lowS highS bestRes calls e)
  then show ?case by (simp add: stage2_rejected)
next
  case (hung iter lowS highS bestRes calls)
  then show ?case by (simp add: stage2_hung)
qed


section \<open>The search as a whole\<close>

lemma search_unfold:
  "iterativeCompressToTarget br img analysis target =
     (case fst (stage1_run br img analysis target) of
        Resolve bestRes \<Rightarrow>
          if stage2_guard bestRes target
          then stage2_scale_search br img analysis target (search_format analysis) 0
                 (1 / 20) (19 / 20) bestRes (stage1_calls br img analysis target)
          else (Resolve bestRes, stage1_calls br img analysis target)
      | Reject e \<Rightarrow> (Reject e, stage1_calls br img analysis target)
      | Hang \<Rightarrow> (Hang, stage1_calls br img analysis target))"
  by (simp add: iterativeCompressToTarget_def stage1_run_def stage1_calls_def Let_def
      split: prod.splits promise.splits)

lemma stage1_run_settles: "fst (stage1_run br img analysis target) \<noteq> Hang"
  unfolding stage1_run_def by (rule stage1_settles) (rule quality_attempt_settles)

lemma stage1_calls_at_most_7: "length (stage1_calls br img analysis target) \<le> 7"
  unfolding stage1_calls_def stage1_run_def by (rule stage1_at_most_7)

lemma stage1_run_best:
  assumes "fst (stage1_run br img analysis target) = Resolve (Some b)"
  shows "res_size b \<le> target"
  using assms unfolding stage1_run_def
  by (rule stage1_best [where Q = "\<lambda>r. res_size r \<le> target", rotated 2]) simp_all

lemma stage1_run_guard:
  assumes "fst (stage1_run br img analysis target) = Resolve bestRes"
  shows "stage2_guard bestRes target = (bestRes = None)"
proof (cases bestRes)
  case None
  then show ?thesis by (simp add: stage2_guard_def)
next
  case (Some b)
  with assms have "res_size b \<le> target" by (simp add: stage1_run_best)
  with Some show ?thesis by (simp add: stage2_guard_def)
qed

lemma search_calls_split:
  "snd (iterativeCompressToTarget br img analysis target) =
     stage1_calls br img analysis target @ stage2_calls br img analysis target"
proof -
  obtain new where
    "snd (stage2_scale_search br img analysis target (search_format analysis) 0
            (1 / 20) (19 / 20) None (stage1_calls br img analysis target))
       = stage1_calls br img analysis target @ new"
    using stage2_extends by blast
  then show ?thesis
    using stage1_run_guard [of br img analysis target]
    by (cases "fst (stage1_run br img analysis target)")
       (auto simp: stage2_calls_def search_unfold)
qed


lemma search_settles: "fst (iterativeCompressToTarget br img analysis target) \<noteq> Hang"
proof (cases "fst (stage1_run br img analysis target)")
  case (Resolve bestRes)
  have "fst (stage2_scale_search br img analysis target (search_format analysis) 0
          (1 / 20) (19 / 20) bestRes (stage1_calls br img analysis target)) \<noteq> Hang"
    by (rule stage2_settles) (rule scale_attempt_settles)
  with Resolve show ?thesis by (simp add: search_unfold)
next
  case (Reject e)
  then show ?thesis by (simp add: search_unfold)
next
  case Hang
  with stage1_run_settles show ?thesis by blast
qed

lemma stage2_calls_not_entered:
  "\<not> stage2_entered br img analysis target \<Longrightarrow> stage2_calls br img analysis target = []"
  by (cases "fst (stage1_run br img analysis target)")
     (auto simp: stage2_entered_def stage2_calls_def search_unfold)

lemma stage2_calls_at_most_8: "length (stage2_calls br img analysis target) \<le> 8"
proof (cases "stage2_entered br img analysis target")
  case False
  then show ?thesis by (simp add: stage2_calls_not_entered)
next
  case True
  then obtain bestRes where b: "fst (stage1_run br img analysis target) = Resolve bestRes"
    and g: "stage2_guard bestRes target"
    by (auto simp: stage2_entered_def split: promise.splits)
  have "length (snd (stage2_scale_search br img analysis target (search_format analysis) 0
          (1 / 20) (19 / 20) bestRes (stage1_calls br img analysis target)))
        \<le> length (stage1_calls br img analysis target) + (8 - 0)"
    by (rule stage2_count)
  with b g show ?thesis by (simp add: stage2_calls_def search_unfold)
qed

lemma stage2_calls_exactly_8:
  assumes "stage2_entered br img analysis target"
    and "fst (iterativeCompressToTarget br img analysis target) = Resolve best"
  shows "length (stage2_calls br img analysis target) = 8"
proof -
  from assms(1) obtain bestRes where b: "fst (stage1_run br img analysis target) = Resolve bestRes"
    and g: "stage2_guard bestRes target"
    by (auto simp: stage2_entered_def split: promise.splits)
  from assms(2) b g have
    "fst (stage2_scale_search br img analysis target (search_format analysis) 0
       (1 / 20) (19 / 20) bestRes (stage1_calls br img analysis target)) = Resolve best"
    by (simp add: search_unfold)
  then have "length (snd (stage2_scale_search br img analysis target (search_format analysis) 0
          (1 / 20) (19 / 20) bestRes (stage1_calls br img analysis target)))
        = length (stage1_calls br img analysis target) + (8 - 0)"
    by (rule stage2_count_resolved)
  with b g show ?thesis by (simp add: stage2_calls_def search_unfold)
qed

lemma stage1_run_shape:
  "case fst (stage1_run br img analysis target) of
     Resolve best \<Rightarrow> list_all resolved (stage1_calls br img analysis target)
        \<and> best = recorded_best target (stage1_calls br img analysis target)
   | Reject e \<Rightarrow> stage1_calls br img analysis target \<noteq> []
        \<and> last (stage1_calls br img analysis target) = Reject e
        \<and> list_all resolved (butlast (stage1_calls br img analysis target))
   | Hang \<Rightarrow> True"
  using stage1_shape [of br img analysis target "search_format analysis" 5 90 None "[]"]
  by (auto simp: stage1_run_def stage1_calls_def recorded_best_def split: promise.splits)

lemma stage1_completes_iff:
  "list_all resolved (stage1_calls br img analysis target)
     \<longleftrightarrow> (\<exists>bestRes. fst (stage1_run br img analysis target) = Resolve bestRes)"
  using stage1_run_shape [of br img analysis target] stage1_run_settles [of br img analysis target]
  by (cases "fst (stage1_run br img analysis target)") (auto simp: not_all_resolved)

lemma stage2_calls_shape:
  assumes "stage2_entered br img analysis target"
  shows "case fst (iterativeCompressToTarget br img analysis target) of
     Resolve best \<Rightarrow> list_all resolved (stage2_calls br img analysis target)
        \<and> length (stage2_calls br img analysis target) = 8
   | Reject e \<Rightarrow> stage2_calls br img analysis target \<noteq> []
        \<and> last (stage2_calls br img analysis target) = Reject e
        \<and> list_all resolved (butlast (stage2_calls br img analysis target))
   | Hang \<Rightarrow> True"
proof -
  from assms obtain bestRes where b: "fst (stage1_run br img analysis target) = Resolve bestRes"
    and g: "stage2_guard bestRes target"
    by (auto simp: stage2_entered_def split: promise.splits)
  from b g have run: "iterativeCompressToTarget br img analysis target =
      stage2_scale_search br img analysis target (search_format analysis) 0
        (1 / 20) (19 / 20) bestRes (stage1_calls br img analysis target)"
    by (simp add: search_unfold)
  from stage2_shape [of br img analysis target "search_format analysis" 0 "1 / 20" "19 / 20"
      bestRes "stage1_calls br img analysis target"]
  show ?thesis
    by (auto simp: stage2_calls_def run split: promise.splits)
qed

lemma stage2_entered_iff:
  "stage2_entered br img analysis target \<longleftrightarrow> stage2_calls br img analysis target \<noteq> []"
proof (cases "stage2_entered br img analysis target")
  case False
  then show ?thesis by (simp add: stage2_calls_not_entered)
next
  case True
  with stage2_calls_shape [OF True] search_settles [of br img analysis target] show ?thesis
    by (cases "fst (iterativeCompressToTarget br img analysis target)") auto
qed

text \<open>
  Claim C2, as the code has it. The search always settles; at each turn of the Stage 1
  loop the interval left to search, \<open>[midQ + 1, highQ]\<close> or \<open>[lowQ, midQ - 1]\<close>,
  is strictly shorter than \<open>[lowQ, highQ]\<close>; Stage 1 makes at most 7 Encoder calls; the calls of the search are those of Stage 1 followed by those of
  Stage 2; Stage 2 makes no call when it is not entered and between 1 and 8 when it is:
  exactly 8 when all of them return, which is when the search resolves, and otherwise
  its last call is the one that failed, the calls before it returned, and the search
  rejects with that call's error; in all at most 15 calls.
\<close>

theorem search_call_bounds:
  "fst (iterativeCompressToTarget br img analysis target) \<noteq> Hang
   \<and> (lowQ \<le> highQ \<longrightarrow>
        highQ - ((lowQ + highQ) div 2 + 1) < highQ - lowQ
      \<and> ((lowQ + highQ) div 2 - 1) - lowQ < highQ - (lowQ :: int))
   \<and> length (stage1_calls br img analysis target) \<le> 7
   \<and> snd (iterativeCompressToTarget br img analysis target) =
       stage1_calls br img analysis target @ stage2_calls br img analysis target
   \<and> length (stage2_calls br img analysis target) \<le> 8
   \<and> (\<not> stage2_entered br img analysis target \<longrightarrow> stage2_calls br img analysis target = [])
   \<and> (stage2_entered br img analysis target \<longrightarrow>
        1 \<le> length (stage2_calls br img analysis target)
      \<and> (list_all resolved (stage2_calls br img analysis target)
           = (\<exists>best. fst (iterativeCompressToTarget br img analysis target) = Resolve best))
      \<and> (list_all resolved (stage2_calls br img analysis target)
           \<longrightarrow> length (stage2_calls br img analysis target) = 8)
      \<and> (\<not> list_all resolved (stage2_calls br img analysis target)
           \<longrightarrow> list_all resolved (butlast (stage2_calls br img analysis target))
             \<and> (\<exists>e. last (stage2_calls br img analysis target) = Reject e
                    \<and> fst (iterativeCompressToTarget br img analysis target) = Reject e)))
   \<and> length (snd (iterativeCompressToTarget br img analysis target)) \<le> 15"
proof -
  let ?c2 = "stage2_calls br img analysis target"
  let ?out = "fst (iterativeCompressToTarget br img analysis target)"
  have total: "length (snd (iterativeCompressToTarget br img analysis target)) \<le> 15"
    using stage1_calls_at_most_7 [of br img analysis target]
      stage2_calls_at_most_8 [of br img analysis target]
    by (simp add: search_calls_split)
  have entered: "1 \<le> length ?c2
      \<and> (list_all resolved ?c2 = (\<exists>best. ?out = Resolve best))
      \<and> (list_all resolved ?c2 \<longrightarrow> length ?c2 = 8)
      \<and> (\<not> list_all resolved ?c2
           \<longrightarrow> list_all resolved (butlast ?c2)
             \<and> (\<exists>e. last ?c2 = Reject e \<and> ?out = Reject e))"
    if e: "stage2_entered br img analysis target"
  proof (cases ?out)
    case (Resolve best)
    with stage2_calls_shape [OF e] show ?thesis by simp
  next
    case (Reject err)
    with stage2_calls_shape [OF e] have ne: "?c2 \<noteq> []" and l: "last ?c2 = Reject err"
      and b: "list_all resolved (butlast ?c2)"
      by simp_all
    from ne l have "\<not> list_all resolved ?c2" by (rule not_all_resolved)
    moreover from ne have "1 \<le> length ?c2" by (cases ?c2) simp_all
    ultimately show ?thesis using Reject l b by simp
  next
    case Hang
    with search_settles [of br img analysis target] show ?thesis by simp
  qed
  have shrinks: "lowQ \<le> highQ \<longrightarrow>
        highQ - ((lowQ + highQ) div 2 + 1) < highQ - lowQ
      \<and> ((lowQ + highQ) div 2 - 1) - lowQ < highQ - lowQ"
    by auto
  show ?thesis
    using search_settles [of br img analysis target] shrinks
      stage1_calls_at_most_7 [of br img analysis target]
      search_calls_split [of br img analysis target]
      stage2_calls_at_most_8 [of br img analysis target]
      stage2_calls_not_entered [of br img analysis target] total entered
    by (intro conjI impI) blast+
qed

text \<open>On the canvas of 3 bytes per pixel, Stage 2 is entered and finds a fitting scale.\<close>

lemma demo3_entered: "stage2_entered (\<lambda>k. demo_canvas 3) demo_image default_analysis 51200"
  by code_simp

lemma demo3_found:
  "fst (iterativeCompressToTarget (\<lambda>k. demo_canvas 3) demo_image default_analysis 51200) =
     Resolve (Some demo3_result)"
  by code_simp

lemma demo3_all_resolved:
  "list_all resolved (stage2_calls (\<lambda>k. demo_canvas 3) demo_image default_analysis 51200)"
  by code_simp

text \<open>
  On the canvas that fails at the fourteenth call, Stage 2 is entered and it is its
  eighth call that fails.
\<close>

lemma late_flaky_entered: "stage2_entered late_flaky_canvas demo_image default_analysis 51200"
  by code_simp

lemma late_flaky_last:
  "last (stage2_calls late_flaky_canvas demo_image default_analysis 51200)
     = Reject (Error ''Compression failed'')"
  by code_simp

lemma late_flaky_length:
  "length (stage2_calls late_flaky_canvas demo_image default_analysis 51200) = 8"
  by code_simp

theorem search_call_bounds_witness:
  "stage2_entered (\<lambda>k. demo_canvas 3) demo_image default_analysis 51200
   \<and> list_all resolved (stage2_calls (\<lambda>k. demo_canvas 3) demo_image default_analysis 51200)
   \<and> length (stage2_calls (\<lambda>k. demo_canvas 3) demo_image default_analysis 51200) = 8
   \<and> length (stage1_calls (\<lambda>k. demo_canvas 3) demo_image default_analysis 51200) \<le> 7
   \<and> length (snd (iterativeCompressToTarget (\<lambda>k. demo_canvas 3) demo_image
        default_analysis 51200)) \<le> 15
   \<and> stage2_entered late_flaky_canvas demo_image default_analysis 51200
   \<and> length (stage2_calls late_flaky_canvas demo_image default_analysis 51200) = 8
   \<and> last (stage2_calls late_flaky_canvas demo_image default_analysis 51200)
       = Reject (Error ''Compression failed'')
   \<and> fst (iterativeCompressToTarget late_flaky_canvas demo_image default_analysis 51200)
       = Reject (Error ''Compression failed'')"
proof -
  have "\<not> list_all resolved (stage2_calls late_flaky_canvas demo_image default_analysis 51200)"
    by code_simp
  with search_call_bounds [of late_flaky_canvas demo_image default_analysis 51200]
    late_flaky_entered late_flaky_last
  have "fst (iterativeCompressToTarget late_flaky_canvas demo_image default_analysis 51200)
       = Reject (Error ''Compression failed'')"
    by auto
  with search_call_bounds [of "\<lambda>k. demo_canvas 3" demo_image default_analysis 51200]
    demo3_entered demo3_all_resolved late_flaky_entered late_flaky_last late_flaky_length
  show ?thesis by simp
qed

text \<open>
  Claim C2 as stated fails: when the Encoder fails at the first call of Stage 2, the
  error leaves the search at once, and Stage 2 has made one call, not eight.
\<close>

theorem stage2_cut_short:
  "stage2_entered flaky_canvas demo_image default_analysis 51200
   \<and> length (stage2_calls flaky_canvas demo_image default_analysis 51200) = 1"
  by code_simp

text \<open>
  Claim C3. Both loops keep a best that fits the target when they are given one that
  does, and whatever the search resolves with, if not null, is at most the target.
\<close>

theorem found_within_target:
  "((\<forall>b. bestRes = Some b \<longrightarrow> res_size b \<le> target) \<and>
      fst (stage1_quality_search br img analysis target fmt lowQ highQ bestRes calls)
        = Resolve (Some r1) \<longrightarrow> res_size r1 \<le> target)
   \<and> ((\<forall>b. bestRes = Some b \<longrightarrow> res_size b \<le> target) \<and>
      fst (stage2_scale_search br img analysis target fmt iter lowS highS bestRes calls)
        = Resolve (Some r2) \<longrightarrow> res_size r2 \<le> target)
   \<and> (fst (iterativeCompressToTarget br img analysis target) = Resolve (Some r)
        \<longrightarrow> res_size r \<le> target)"
proof (intro conjI impI)
  assume "(\<forall>b. bestRes = Some b \<longrightarrow> res_size b \<le> target) \<and>
      fst (stage1_quality_search br img analysis target fmt lowQ highQ bestRes calls)
        = Resolve (Some r1)"
  then show "res_size r1 \<le> target"
    using stage1_best [where Q = "\<lambda>r. res_size r \<le> target" and target = target] by blast
next
  assume "(\<forall>b. bestRes = Some b \<longrightarrow> res_size b \<le> target) \<and>
      fst (stage2_scale_search br img analysis target fmt iter lowS highS bestRes calls)
        = Resolve (Some r2)"
  then show "res_size r2 \<le> target"
    using stage2_best [where Q = "\<lambda>r. res_size r \<le> target" and target = target] by blast
next
  assume found: "fst (iterativeCompressToTarget br img analysis target) = Resolve (Some r)"
  show "res_size r \<le> target"
  proof (cases "fst (stage1_run br img analysis target)")
    case (Resolve bestRes)
    note s1 = stage1_run_guard [OF Resolve]
    show ?thesis
    proof (cases bestRes)
      case None
      with found Resolve s1 have
        "fst (stage2_scale_search br img analysis target (search_format analysis) 0
           (1 / 20) (19 / 20) None (stage1_calls br img analysis target)) = Resolve (Some r)"
        by (simp add: search_unfold)
      then show ?thesis
        using stage2_best [where Q = "\<lambda>r. res_size r \<le> target" and target = target
            and bestRes = None]
        by blast
    next
      case (Some b)
      with found Resolve s1 have "r = b" by (simp add: search_unfold)
      with Some Resolve show ?thesis by (simp add: stage1_run_best)
    qed
  next
    case (Reject e)
    with found show ?thesis by (simp add: search_unfold)
  next
    case Hang
    with found show ?thesis by (simp add: search_unfold)
  qed
qed

theorem found_within_target_witness:
  "fst (iterativeCompressToTarget (\<lambda>k. demo_canvas 3) demo_image default_analysis 51200) =
     Resolve (Some demo3_result)
   \<and> res_size demo3_result \<le> 51200"
  using found_within_target [where br = "\<lambda>k. demo_canvas 3" and img = demo_image
        and analysis = default_analysis and target = 51200 and r = demo3_result,
      THEN conjunct2, THEN conjunct2]
    demo3_found
  by simp


text \<open>
  Claim C4, as the code has it. Stage 2 makes a call if and only if every Encoder call of
  Stage 1 returned and Stage 1 recorded no best; the guard lets the search in exactly
  then. A recorded best never exceeds the target, so where the guard is evaluated it
  holds exactly when the best is null. When an Encoder call of Stage 1 fails, the error
  leaves the search and Stage 2 makes no call, whatever was recorded.
\<close>

theorem stage2_iff_no_best:
  "(stage2_calls br img analysis target \<noteq> []
      \<longleftrightarrow> list_all resolved (stage1_calls br img analysis target)
          \<and> recorded_best target (stage1_calls br img analysis target) = None)
   \<and> (stage2_entered br img analysis target \<longleftrightarrow> stage2_calls br img analysis target \<noteq> [])
   \<and> (\<forall>b. recorded_best target (stage1_calls br img analysis target) = Some b
          \<longrightarrow> \<not> target < res_size b)
   \<and> (fst (stage1_run br img analysis target) = Resolve bestRes \<longrightarrow>
        list_all resolved (stage1_calls br img analysis target)
      \<and> bestRes = recorded_best target (stage1_calls br img analysis target)
      \<and> stage2_guard bestRes target = (bestRes = None)
      \<and> iterativeCompressToTarget br img analysis target =
          (if bestRes = None
           then stage2_scale_search br img analysis target (search_format analysis) 0
                  (1 / 20) (19 / 20) None (stage1_calls br img analysis target)
           else (Resolve bestRes, stage1_calls br img analysis target)))
   \<and> (\<not> list_all resolved (stage1_calls br img analysis target) \<longrightarrow>
        stage2_calls br img analysis target = []
      \<and> (\<exists>e. last (stage1_calls br img analysis target) = Reject e
             \<and> iterativeCompressToTarget br img analysis target
                 = (Reject e, stage1_calls br img analysis target)))"
proof -
  let ?c1 = "stage1_calls br img analysis target"
  let ?c2 = "stage2_calls br img analysis target"
  let ?s1 = "fst (stage1_run br img analysis target)"
  have fits: "\<forall>b. recorded_best target ?c1 = Some b \<longrightarrow> \<not> target < res_size b"
    using recorded_fits [of None target ?c1] by (auto simp: recorded_best_def not_less)
  have entered: "stage2_entered br img analysis target \<longleftrightarrow> ?c2 \<noteq> []"
    by (rule stage2_entered_iff)
  have finished: "list_all resolved ?c1 \<and> bestRes = recorded_best target ?c1
      \<and> stage2_guard bestRes target = (bestRes = None)
      \<and> iterativeCompressToTarget br img analysis target =
          (if bestRes = None
           then stage2_scale_search br img analysis target (search_format analysis) 0
                  (1 / 20) (19 / 20) None ?c1
           else (Resolve bestRes, ?c1))"
    if s1: "?s1 = Resolve bestRes" for bestRes
    using stage1_run_shape [of br img analysis target] stage1_run_guard [OF s1] s1
    by (auto simp: search_unfold)
  have failed: "?c2 = [] \<and> (\<exists>e. last ?c1 = Reject e
         \<and> iterativeCompressToTarget br img analysis target = (Reject e, ?c1))"
    if n: "\<not> list_all resolved ?c1"
  proof (cases ?s1)
    case (Resolve b)
    with n stage1_completes_iff [of br img analysis target] show ?thesis by simp
  next
    case (Reject e)
    with stage1_run_shape [of br img analysis target] have "last ?c1 = Reject e" by simp
    moreover from Reject have "\<not> stage2_entered br img analysis target"
      by (simp add: stage2_entered_def)
    ultimately show ?thesis using Reject
      by (simp add: stage2_calls_not_entered search_unfold)
  next
    case Hang
    with stage1_run_settles [of br img analysis target] show ?thesis by simp
  qed
  have iff: "?c2 \<noteq> [] \<longleftrightarrow> list_all resolved ?c1 \<and> recorded_best target ?c1 = None"
  proof (cases "list_all resolved ?c1")
    case False
    with failed show ?thesis by simp
  next
    case True
    then obtain b where b: "?s1 = Resolve b"
      using stage1_completes_iff [of br img analysis target] by blast
    from b stage1_run_guard [OF b] have "stage2_entered br img analysis target = (b = None)"
      by (simp add: stage2_entered_def)
    moreover from finished [OF b] have "b = recorded_best target ?c1"
      by blast
    ultimately show ?thesis using entered True by auto
  qed
  show ?thesis
    using iff entered fits finished failed by (intro conjI impI) blast+
qed

lemma demo_half_stage1:
  "fst (stage1_run (\<lambda>k. demo_canvas (1 / 2)) demo_image default_analysis 51200) =
     Resolve (Some demo_half_result)"
  by code_simp

lemma demo3_stage1:
  "fst (stage1_run (\<lambda>k. demo_canvas 3) demo_image default_analysis 51200) = Resolve None"
  by code_simp

theorem stage2_iff_no_best_witness:
  "fst (stage1_run (\<lambda>k. demo_canvas (1 / 2)) demo_image default_analysis 51200) =
     Resolve (Some demo_half_result)
   \<and> recorded_best 51200 (stage1_calls (\<lambda>k. demo_canvas (1 / 2)) demo_image default_analysis 51200)
       = Some demo_half_result
   \<and> stage2_calls (\<lambda>k. demo_canvas (1 / 2)) demo_image default_analysis 51200 = []
   \<and> fst (stage1_run (\<lambda>k. demo_canvas 3) demo_image default_analysis 51200) = Resolve None
   \<and> recorded_best 51200 (stage1_calls (\<lambda>k. demo_canvas 3) demo_image default_analysis 51200)
       = None
   \<and> stage2_entered (\<lambda>k. demo_canvas 3) demo_image default_analysis 51200
   \<and> stage2_calls (\<lambda>k. demo_canvas 3) demo_image default_analysis 51200 \<noteq> []"
  using stage2_iff_no_best [of "\<lambda>k. demo_canvas (1 / 2)" demo_image default_analysis 51200
      "Some demo_half_result"]
    stage2_iff_no_best [of "\<lambda>k. demo_canvas 3" demo_image default_analysis 51200 None]
    demo_half_stage1 demo3_stage1
  by auto

text \<open>
  Claim C4 as stated fails: when the codec hands back no blob at the first call of
  Stage 1, Stage 1 has recorded no best, and Stage 2 does not execute: the search rejects
  after that one call.
\<close>

theorem stage1_failure_skips_stage2:
  "recorded_best 51200 (stage1_calls (\<lambda>k. broken_canvas) demo_image default_analysis 51200) = None
   \<and> stage2_calls (\<lambda>k. broken_canvas) demo_image default_analysis 51200 = []
   \<and> iterativeCompressToTarget (\<lambda>k. broken_canvas) demo_image default_analysis 51200
       = (Reject (Error ''Compression failed''), [Reject (Error ''Compression failed'')])"
  by code_simp




section \<open>Stage 1 under a monotone Encoder\<close>

lemma monotone_sizes:
  assumes "monotone_encoder b img analysis" and "5 \<le> q" and "q \<le> q'" and "q' \<le> 90"
  shows "\<exists>s s'. size_at b img analysis q = Some s \<and> size_at b img analysis q' = Some s'
           \<and> s \<le> s'"
proof -
  from assms have "case (size_at b img analysis q, size_at b img analysis q') of
          (Some s, Some s') \<Rightarrow> s \<le> s'
        | _ \<Rightarrow> False"
    unfolding monotone_encoder_def by auto
  then show ?thesis
    by (cases "size_at b img analysis q"; cases "size_at b img analysis q'") simp_all
qed

lemma fits_down:
  assumes "monotone_encoder b img analysis" and "5 \<le> q" and "q \<le> q'" and "q' \<le> 90"
    and "fits_at b img analysis target q'"
  shows "fits_at b img analysis target q"
proof -
  from monotone_sizes [OF assms(1-4)] obtain s s' where
    "size_at b img analysis q = Some s" "size_at b img analysis q' = Some s'" "s \<le> s'"
    by blast
  with assms(5) show ?thesis by (simp add: fits_at_def)
qed

lemma fits_attempt:
  "fits_at b img analysis target q \<longleftrightarrow>
   (\<exists>r. quality_attempt b img analysis (search_format analysis) q = Resolve r
        \<and> res_size r \<le> target)"
  by (cases "quality_attempt b img analysis (search_format analysis) q")
     (simp_all add: fits_at_def size_at_def)

lemma monotone_resolves:
  assumes "monotone_encoder b img analysis" and "5 \<le> q" and "q \<le> 90"
  shows "\<exists>r. quality_attempt b img analysis (search_format analysis) q = Resolve r"
proof -
  from monotone_sizes [OF assms(1,2) order_refl assms(3)]
  obtain s where "size_at b img analysis q = Some s" by blast
  then show ?thesis
    by (cases "quality_attempt b img analysis (search_format analysis) q")
       (simp_all add: size_at_def)
qed

lemma stage1_bisect:
  assumes mono: "monotone_encoder b img analysis"
  shows "5 \<le> lowQ \<Longrightarrow> highQ \<le> 90 \<Longrightarrow> lowQ \<le> highQ + 1 \<Longrightarrow>
     (\<forall>q. 5 \<le> q \<and> q < lowQ \<longrightarrow> fits_at b img analysis target q) \<Longrightarrow>
     (\<forall>q. highQ < q \<and> q \<le> 90 \<longrightarrow> \<not> fits_at b img analysis target q) \<Longrightarrow>
     best_at b img analysis lowQ bestRes \<Longrightarrow>
     \<exists>L best. 5 \<le> L \<and> L \<le> 91
       \<and> (\<forall>q. 5 \<le> q \<and> q < L \<longrightarrow> fits_at b img analysis target q)
       \<and> (\<forall>q. L \<le> q \<and> q \<le> 90 \<longrightarrow> \<not> fits_at b img analysis target q)
       \<and> best_at b img analysis L best
       \<and> fst (stage1_quality_search (\<lambda>k. b) img analysis target (search_format analysis)
                lowQ highQ bestRes calls) = Resolve best"
proof (induction lowQ highQ bestRes calls
    rule: stage1_induct [where br = "\<lambda>k. b" and img = img and analysis = analysis
      and fmt = "search_format analysis" and target = target])
  case (exit lowQ highQ bestRes calls)
  from exit.hyps exit.prems(3) have "lowQ = highQ + 1" by simp
  with exit show ?case
    by (intro exI [of _ lowQ] exI [of _ bestRes]) (simp add: stage1_exit)
next
  case (fits lowQ highQ bestRes calls r)
  let ?mid = "(lowQ + highQ) div 2"
  have mid: "lowQ \<le> ?mid" "?mid \<le> highQ"
    using fits.hyps(1) by linarith+
  have fm: "fits_at b img analysis target ?mid"
    using fits.hyps(2,3) by (auto simp: fits_attempt)
  have below: "\<forall>q. 5 \<le> q \<and> q < ?mid + 1 \<longrightarrow> fits_at b img analysis target q"
  proof (intro allI impI)
    fix q assume "5 \<le> q \<and> q < ?mid + 1"
    then show "fits_at b img analysis target q"
      using fits_down [OF mono _ _ _ fm, of q] mid fits.prems(2) by simp
  qed
  have best: "best_at b img analysis (?mid + 1) (Some r)"
    using fits.hyps(2) mid fits.prems(1) by (simp add: best_at_def)
  have "\<exists>L best. 5 \<le> L \<and> L \<le> 91
       \<and> (\<forall>q. 5 \<le> q \<and> q < L \<longrightarrow> fits_at b img analysis target q)
       \<and> (\<forall>q. L \<le> q \<and> q \<le> 90 \<longrightarrow> \<not> fits_at b img analysis target q)
       \<and> best_at b img analysis L best
       \<and> fst (stage1_quality_search (\<lambda>k. b) img analysis target (search_format analysis)
                (?mid + 1) highQ (Some r) (calls @ [Resolve r])) = Resolve best"
    using mid fits.prems(1,2) below fits.prems(5) best
    by (intro fits.IH) simp_all
  then show ?case
    using fits.hyps by (simp add: stage1_fits)
next
  case (too_big lowQ highQ bestRes calls r)
  let ?mid = "(lowQ + highQ) div 2"
  have mid: "lowQ \<le> ?mid" "?mid \<le> highQ"
    using too_big.hyps(1) by linarith+
  have fm: "\<not> fits_at b img analysis target ?mid"
    using too_big.hyps(2,3) by (auto simp: fits_attempt)
  have above: "\<forall>q. ?mid - 1 < q \<and> q \<le> 90 \<longrightarrow> \<not> fits_at b img analysis target q"
  proof (intro allI impI)
    fix q assume q: "?mid - 1 < q \<and> q \<le> 90"
    show "\<not> fits_at b img analysis target q"
    proof
      assume "fits_at b img analysis target q"
      then have "fits_at b img analysis target ?mid"
        using fits_down [OF mono, of ?mid q target] q mid too_big.prems(1) by simp
      with fm show False by simp
    qed
  qed
  have "\<exists>L best. 5 \<le> L \<and> L \<le> 91
       \<and> (\<forall>q. 5 \<le> q \<and> q < L \<longrightarrow> fits_at b img analysis target q)
       \<and> (\<forall>q. L \<le> q \<and> q \<le> 90 \<longrightarrow> \<not> fits_at b img analysis target q)
       \<and> best_at b img analysis L best
       \<and> fst (stage1_quality_search (\<lambda>k. b) img analysis target (search_format analysis)
                lowQ (?mid - 1) bestRes (calls @ [Resolve r])) = Resolve best"
    using mid too_big.prems(1,2,4,6) above
    by (intro too_big.IH) simp_all
  then show ?case
    using too_big.hyps by (simp add: stage1_too_big)
next
  case (rejected lowQ highQ bestRes calls e)
  have "5 \<le> (lowQ + highQ) div 2" "(lowQ + highQ) div 2 \<le> 90"
    using rejected.hyps(1) rejected.prems(1,2) by linarith+
  from monotone_resolves [OF mono this] rejected.hyps(2) show ?case by simp
next
  case (hung lowQ highQ bestRes calls)
  have "5 \<le> (lowQ + highQ) div 2" "(lowQ + highQ) div 2 \<le> 90"
    using hung.hyps(1) hung.prems(1,2) by linarith+
  from monotone_resolves [OF mono this] hung.hyps(2) show ?case by simp
qed

text \<open>
  Claim C1. With an Encoder that answers a request the same way at every call and is
  monotone in the quality, if some quality from 5 to 90 fits the target at native scale,
  the search resolves with the attempt at the highest such quality, and it does so with
  the calls of Stage 1 alone: Stage 2 is not entered.
\<close>

theorem highest_fitting_quality:
  assumes "monotone_encoder b img analysis"
    and "\<exists>q \<in> {5..90}. fits_at b img analysis target q"
  shows "\<exists>q \<in> {5..90}. \<exists>r.
           quality_attempt b img analysis (search_format analysis) q = Resolve r
         \<and> res_size r \<le> target
         \<and> (\<forall>q' \<in> {q<..90}. \<not> fits_at b img analysis target q')
         \<and> iterativeCompressToTarget (\<lambda>k. b) img analysis target =
             (Resolve (Some r), stage1_calls (\<lambda>k. b) img analysis target)
         \<and> \<not> stage2_entered (\<lambda>k. b) img analysis target
         \<and> stage2_calls (\<lambda>k. b) img analysis target = []"
proof -
  have "\<exists>L best. 5 \<le> L \<and> L \<le> 91
       \<and> (\<forall>q. 5 \<le> q \<and> q < L \<longrightarrow> fits_at b img analysis target q)
       \<and> (\<forall>q. L \<le> q \<and> q \<le> 90 \<longrightarrow> \<not> fits_at b img analysis target q)
       \<and> best_at b img analysis L best
       \<and> fst (stage1_quality_search (\<lambda>k. b) img analysis target (search_format analysis)
                5 90 None []) = Resolve best"
    by (rule stage1_bisect [OF assms(1)]) (auto simp: best_at_def)
  then obtain L best where L: "5 \<le> L" "L \<le> 91"
    and above: "\<forall>q. L \<le> q \<and> q \<le> 90 \<longrightarrow> \<not> fits_at b img analysis target q"
    and below: "\<forall>q. 5 \<le> q \<and> q < L \<longrightarrow> fits_at b img analysis target q"
    and best: "best_at b img analysis L best"
    and run: "fst (stage1_run (\<lambda>k. b) img analysis target) = Resolve best"
    unfolding stage1_run_def by blast
  from assms(2) obtain q0 where q0: "5 \<le> q0" "q0 \<le> 90" "fits_at b img analysis target q0"
    by auto
  with above have "\<not> L \<le> q0" by blast
  with q0 have L5: "5 < L" by simp
  with best obtain r where
    r: "quality_attempt b img analysis (search_format analysis) (L - 1) = Resolve r"
    and b: "best = Some r"
    by (auto simp: best_at_def)
  from below L5 have "fits_at b img analysis target (L - 1)" by simp
  with r have sz: "res_size r \<le> target" by (simp add: fits_attempt)
  from run b sz have search: "iterativeCompressToTarget (\<lambda>k. b) img analysis target =
      (Resolve (Some r), stage1_calls (\<lambda>k. b) img analysis target)"
    by (simp add: search_unfold stage2_guard_def)
  from run b sz have ne: "\<not> stage2_entered (\<lambda>k. b) img analysis target"
    by (simp add: stage2_entered_def stage2_guard_def)
  have "L - 1 \<in> {5..90}" using L L5 by simp
  moreover have "\<forall>q' \<in> {L - 1<..90}. \<not> fits_at b img analysis target q'"
    using above by simp
  ultimately show ?thesis
    using r sz search ne stage2_calls_not_entered [OF ne] by blast
qed

lemma demo_half_size:
  "0 \<le> q \<Longrightarrow> size_at (demo_canvas (1 / 2)) demo_image default_analysis q = Some (nat (2400 * q))"
proof -
  assume "0 \<le> q"
  have "\<lfloor>rat_of_int q * 2400\<rfloor> = 2400 * q"
    by (metis floor_of_int mult.commute of_int_mult of_int_numeral)
  then show ?thesis
    by (simp add: size_at_def quality_attempt_def compressImage_def demo_canvas_def
        demo_image_def default_analysis_def search_format_def num_or_def nth_opt_def Let_def
        algebra_simps)
qed

lemma demo_half_monotone: "monotone_encoder (demo_canvas (1 / 2)) demo_image default_analysis"
  unfolding monotone_encoder_def by (auto simp: demo_half_size)

lemma demo_half_fits: "fits_at (demo_canvas (1 / 2)) demo_image default_analysis 51200 21"
  by (simp add: fits_at_def demo_half_size)

theorem highest_fitting_quality_witness:
  "\<exists>q \<in> {5..90}. \<exists>r.
      quality_attempt (demo_canvas (1 / 2)) demo_image default_analysis
        (search_format default_analysis) q = Resolve r
    \<and> res_size r \<le> 51200
    \<and> (\<forall>q' \<in> {q<..90}. \<not> fits_at (demo_canvas (1 / 2)) demo_image default_analysis 51200 q')
    \<and> iterativeCompressToTarget (\<lambda>k. demo_canvas (1 / 2)) demo_image default_analysis 51200 =
        (Resolve (Some r),
         stage1_calls (\<lambda>k. demo_canvas (1 / 2)) demo_image default_analysis 51200)
    \<and> \<not> stage2_entered (\<lambda>k. demo_canvas (1 / 2)) demo_image default_analysis 51200
    \<and> stage2_calls (\<lambda>k. demo_canvas (1 / 2)) demo_image default_analysis 51200 = []"
proof -
  have "\<exists>q \<in> {5..90}. fits_at (demo_canvas (1 / 2)) demo_image default_analysis 51200 q"
    using demo_half_fits by (intro bexI [of _ 21]) simp_all
  with demo_half_monotone show ?thesis
    by (rule highest_fitting_quality)
qed

section \<open>The avif fallback of the Encoder wrapper\<close>

lemma webp_format_field: "nth_opt (split_str CHR ''/'' ''image/webp'') 1 = Some ''webp''"
  by (simp add: nth_opt_def)

lemma toUpperCase_webp: "toUpperCase ''webp'' = ''WEBP''"
  by code_simp

lemma compressImage_avif:
  "compressImage b src q ''image/avif'' d tw th crop sm =
   compressImage b src q ''image/webp'' d tw th crop sm"
  by (simp add: compressImage_def)

lemma compressImage_webp_format:
  assumes "compressImage b src q ''image/webp'' d tw th crop sm = Resolve r"
  shows "res_format r = ''WEBP'' \<and> (\<exists>dr. toBlob b dr ''image/webp'' (q / 100) = Some (res_blob r))"
  using assms unfolding compressImage_def
  by (auto simp: Let_def nth_opt_def toUpperCase_webp
      split: option.splits prod.splits if_splits)

lemma stage1_calls_all:
  assumes "\<And>k q r. quality_attempt (br k) img analysis fmt q = Resolve r \<Longrightarrow> Q r"
  shows "(\<forall>c \<in> set calls. \<forall>r. c = Resolve r \<longrightarrow> Q r) \<Longrightarrow>
         \<forall>c \<in> set (snd (stage1_quality_search br img analysis target fmt lowQ highQ bestRes calls)).
           \<forall>r. c = Resolve r \<longrightarrow> Q r"
proof (induction lowQ highQ bestRes calls
    rule: stage1_induct [where br = br and img = img and analysis = analysis and fmt = fmt
      and target = target])
  case (exit lowQ highQ bestRes calls)
  then show ?case by (simp add: stage1_exit)
next
  case (fits lowQ highQ bestRes calls r)
  from assms [OF fits.hyps(2)] fits.prems have
    "\<forall>c \<in> set (calls @ [Resolve r]). \<forall>r. c = Resolve r \<longrightarrow> Q r" by auto
  from fits.IH [OF this] show ?case by (simp add: stage1_fits fits.hyps)
next
  case (too_big lowQ highQ bestRes calls r)
  from assms [OF too_big.hyps(2)] too_big.prems have
    "\<forall>c \<in> set (calls @ [Resolve r]). \<forall>r. c = Resolve r \<longrightarrow> Q r" by auto
  from too_big.IH [OF this] show ?case by (simp add: stage1_too_big too_big.hyps)
next
  case (rejected lowQ highQ bestRes calls e)
  then show ?case by (simp add: stage1_rejected)
next
  case (hung lowQ highQ bestRes calls)
  then show ?case by (simp add: stage1_hung)
qed

lemma stage2_calls_all:
  assumes "\<And>k s r. scale_attempt (br k) img analysis fmt s = Resolve r \<Longrightarrow> Q r"
  shows "(\<forall>c \<in> set calls. \<forall>r. c = Resolve r \<longrightarrow> Q r) \<Longrightarrow>
         \<forall>c \<in> set (snd (stage2_scale_search br img analysis target fmt iter lowS highS bestRes calls)).
           \<forall>r. c = Resolve r \<longrightarrow> Q r"
proof (induction iter lowS highS bestRes calls
    rule: stage2_induct [where br = br and img = img and analysis = analysis and fmt = fmt
      and target = target])
  case (exit iter lowS highS bestRes calls)
  then show ?case by (simp add: stage2_exit)
next
  case (fits iter lowS highS bestRes calls r)
  from assms [OF fits.hyps(2)] fits.prems have
    "\<forall>c \<in> set (calls @ [Resolve r]). \<forall>r. c = Resolve r \<longrightarrow> Q r" by auto
  from fits.IH [OF this] show ?case by (simp add: stage2_fits fits.hyps)
next
  case (too_big iter lowS highS bestRes calls r)
  from assms [OF too_big.hyps(2)] too_big.prems have
    "\<forall>c \<in> set (calls @ [Resolve r]). \<forall>r. c = Resolve r \<longrightarrow> Q r" by auto
  from too_big.IH [OF this] show ?case by (simp add: stage2_too_big too_big.hyps)
next
  case (rejected iter lowS highS bestRes calls e)
  then show ?case by (simp add: stage2_rejected)
next
  case (hung iter lowS highS bestRes calls)
  then show ?case by (simp add: stage2_hung)
qed

lemma search_calls_all:
  assumes "\<And>k q r. quality_attempt (br k) img analysis (search_format analysis) q = Resolve r
             \<Longrightarrow> Q r"
    and "\<And>k s r. scale_attempt (br k) img analysis (search_format analysis) s = Resolve r
             \<Longrightarrow> Q r"
  shows "\<forall>c \<in> set (snd (iterativeCompressToTarget br img analysis target)).
           \<forall>r. c = Resolve r \<longrightarrow> Q r"
proof -
  have one: "\<forall>c \<in> set (stage1_calls br img analysis target). \<forall>r. c = Resolve r \<longrightarrow> Q r"
    unfolding stage1_calls_def stage1_run_def
    by (rule stage1_calls_all [where Q = Q, OF assms(1)]) auto
  have two: "\<forall>c \<in> set (snd (stage2_scale_search br img analysis target (search_format analysis)
       0 (1 / 20) (19 / 20) bestRes (stage1_calls br img analysis target))).
           \<forall>r. c = Resolve r \<longrightarrow> Q r" for bestRes
    by (rule stage2_calls_all [where Q = Q, OF assms(2) one])
  show ?thesis
    using one two
    by (cases "fst (stage1_run br img analysis target)") (simp_all add: search_unfold)
qed

lemma search_format_avif:
  "suggestedFormat analysis = Some ''avif'' \<Longrightarrow> search_format analysis = ''image/avif''"
  by (simp add: search_format_def)

text \<open>
  Claim C10. A call of \<open>compressImage\<close> with format image/avif behaves as the call with
  image/webp: the blob of its result is what \<open>toBlob\<close> answers for the type image/webp,
  and the format field is WEBP. Hence, when the analysis suggests avif, every result of an
  Encoder call of the search, and the result of the search, has the format field WEBP.
\<close>

theorem avif_encoded_as_webp:
  "compressImage b src q ''image/avif'' d tw th crop sm =
     compressImage b src q ''image/webp'' d tw th crop sm
   \<and> (compressImage b src q ''image/avif'' d tw th crop sm = Resolve r \<longrightarrow>
        res_format r = ''WEBP''
        \<and> (\<exists>dr. toBlob b dr ''image/webp'' (q / 100) = Some (res_blob r)))
   \<and> (suggestedFormat analysis = Some ''avif'' \<longrightarrow>
        (\<forall>c \<in> set (snd (iterativeCompressToTarget br img analysis target)).
           \<forall>r'. c = Resolve r' \<longrightarrow> res_format r' = ''WEBP'')
        \<and> (\<forall>r'. fst (iterativeCompressToTarget br img analysis target) = Resolve (Some r')
              \<longrightarrow> res_format r' = ''WEBP''))"
proof (intro conjI impI allI)
  show "compressImage b src q ''image/avif'' d tw th crop sm =
     compressImage b src q ''image/webp'' d tw th crop sm"
    by (rule compressImage_avif)
next
  assume "compressImage b src q ''image/avif'' d tw th crop sm = Resolve r"
  then have w: "compressImage b src q ''image/webp'' d tw th crop sm = Resolve r"
    by (simp add: compressImage_avif)
  from compressImage_webp_format [OF w]
  show "res_format r = ''WEBP''" and "\<exists>dr. toBlob b dr ''image/webp'' (q / 100) = Some (res_blob r)"
    by blast+
next
  assume avif: "suggestedFormat analysis = Some ''avif''"
  have q: "quality_attempt (br k) img analysis (search_format analysis) x = Resolve y \<Longrightarrow>
      res_format y = ''WEBP''" for k x y
    using compressImage_webp_format
    by (simp add: quality_attempt_def search_format_avif [OF avif] compressImage_avif)
  have s: "scale_attempt (br k) img analysis (search_format analysis) x = Resolve y \<Longrightarrow>
      res_format y = ''WEBP''" for k x y
    using compressImage_webp_format
    by (simp add: scale_attempt_def Let_def search_format_avif [OF avif] compressImage_avif)
  show all: "\<forall>c \<in> set (snd (iterativeCompressToTarget br img analysis target)).
           \<forall>r'. c = Resolve r' \<longrightarrow> res_format r' = ''WEBP''"
    by (rule search_calls_all [where Q = "\<lambda>r. res_format r = ''WEBP''"]) (fact q, fact s)
  fix r'
  assume found: "fst (iterativeCompressToTarget br img analysis target) = Resolve (Some r')"
  show "res_format r' = ''WEBP''"
  proof (cases "fst (stage1_run br img analysis target)")
    case (Resolve bestRes)
    have b: "\<forall>x. bestRes = Some x \<longrightarrow> res_format x = ''WEBP''"
      using Resolve stage1_best [where Q = "\<lambda>r. res_format r = ''WEBP''" and br = br
          and img = img and analysis = analysis and fmt = "search_format analysis"
          and target = target and bestRes = None and lowQ = 5 and highQ = 90 and calls = "[]"] q
      unfolding stage1_run_def by auto
    show ?thesis
    proof (cases "stage2_guard bestRes target")
      case True
      with found Resolve have
        "fst (stage2_scale_search br img analysis target (search_format analysis) 0
           (1 / 20) (19 / 20) bestRes (stage1_calls br img analysis target)) = Resolve (Some r')"
        by (simp add: search_unfold)
      then show ?thesis
        using stage2_best [where Q = "\<lambda>r. res_format r = ''WEBP''" and br = br
          and img = img and analysis = analysis and fmt = "search_format analysis"
          and target = target and bestRes = bestRes] s b
        by blast
    next
      case False
      with found Resolve b show ?thesis by (simp add: search_unfold)
    qed
  next
    case (Reject e)
    with found show ?thesis by (simp add: search_unfold)
  next
    case Hang
    with found show ?thesis by (simp add: search_unfold)
  qed
qed

lemma demo_half_avif:
  "fst (iterativeCompressToTarget (\<lambda>k. demo_canvas (1 / 2)) demo_image avif_analysis 51200) =
     Resolve (Some demo_half_result)"
  by code_simp

theorem avif_encoded_as_webp_witness:
  "suggestedFormat avif_analysis = Some ''avif''
   \<and> fst (iterativeCompressToTarget (\<lambda>k. demo_canvas (1 / 2)) demo_image avif_analysis 51200) =
       Resolve (Some demo_half_result)
   \<and> res_format demo_half_result = ''WEBP''
   \<and> blob_type (res_blob demo_half_result) = ''image/webp''"
proof -
  have a: "suggestedFormat avif_analysis = Some ''avif''"
    by (simp add: avif_analysis_def)
  have b: "blob_type (res_blob demo_half_result) = ''image/webp''"
    by (simp add: demo_half_result_def)
  from avif_encoded_as_webp [where analysis = avif_analysis
      and br = "\<lambda>k. demo_canvas (1 / 2)" and img = demo_image and target = 51200,
      THEN conjunct2, THEN conjunct2, rule_format, OF a, THEN conjunct2, rule_format,
      OF demo_half_avif]
  show ?thesis using a b demo_half_avif by simp
qed

section \<open>The batch driver\<close>

lemma await_settles:
  "p \<noteq> Hang \<Longrightarrow> (\<And>x. k x \<noteq> Hang) \<Longrightarrow> await p k \<noteq> Hang"
  by (cases p) simp_all

lemma fileToBase64_settles: "fileToBase64 w f \<noteq> Hang"
  by (simp add: fileToBase64_def split: sum.splits)

lemma analyzeImage_settles: "analyzeImage ai base64Image mimeType \<noteq> Hang"
  by (simp add: analyzeImage_def Let_def split: option.splits sum.splits)

lemma item_analysis_settles: "item_analysis w img \<noteq> Hang"
  unfolding item_analysis_def
  by (cases "img_analysis img")
     (simp_all add: await_settles fileToBase64_settles analyzeImage_settles)

lemma auto_item_settles: "auto_item w img target \<noteq> Hang"
  unfolding auto_item_def
  by (intro await_settles item_analysis_settles search_settles) simp

lemma batch_body_eq:
  "batch_body w snapshot target i st =
     Resolve (setProcessingProgress (report_at (length snapshot) (i + 1))
       (updateImageInList (img_id (snapshot ! i))
          (settle (snapshot ! i) (auto_item w (snapshot ! i) target))
          (updateImageInList (img_id (snapshot ! i)) mark_optimizing st)))"
proof (cases "auto_item w (snapshot ! i) target")
  case (Resolve found)
  then show ?thesis
    by (cases found) (auto simp: batch_body_def settle_def report_at_def Let_def)
next
  case (Reject e)
  then show ?thesis
    by (simp add: batch_body_def settle_def report_at_def Let_def)
next
  case Hang
  with auto_item_settles show ?thesis by blast
qed

lemma batch_loop_step:
  "i < length snapshot \<Longrightarrow>
   batch_loop w snapshot target i st =
   batch_loop w snapshot target (i + 1)
     (setProcessingProgress (report_at (length snapshot) (i + 1))
       (updateImageInList (img_id (snapshot ! i))
          (settle (snapshot ! i) (auto_item w (snapshot ! i) target))
          (updateImageInList (img_id (snapshot ! i)) mark_optimizing st)))"
  by (subst batch_loop.simps) (simp add: batch_body_eq)

lemma batch_loop_done:
  "\<not> i < length snapshot \<Longrightarrow> batch_loop w snapshot target i st = Resolve st"
  by (subst batch_loop.simps) simp

lemma progressReports_update [simp]:
  "progressReports (updateImageInList ident f st) = progressReports st"
  by (simp add: updateImageInList_def)

lemma appState_update [simp]:
  "appState (updateImageInList ident f st) = appState st"
  by (simp add: updateImageInList_def)

lemma imageList_report [simp]:
  "imageList (setProcessingProgress v st) = imageList st"
  by (simp add: setProcessingProgress_def)

lemma progressReports_report [simp]:
  "progressReports (setProcessingProgress v st) = progressReports st @ [v]"
  by (simp add: setProcessingProgress_def)

lemma batch_loop_reports:
  "i \<le> length snapshot \<Longrightarrow>
   \<exists>st'. batch_loop w snapshot target i st = Resolve st'
     \<and> progressReports st' =
         progressReports st @ map (report_at (length snapshot)) [Suc i..<Suc (length snapshot)]"
proof (induction n \<equiv> "length snapshot - i" arbitrary: i st)
  case 0
  then have "\<not> i < length snapshot" by simp
  with 0 show ?case by (simp add: batch_loop_done)
next
  case (Suc n)
  then have lt: "i < length snapshot" by simp
  let ?st1 = "setProcessingProgress (report_at (length snapshot) (i + 1))
       (updateImageInList (img_id (snapshot ! i))
          (settle (snapshot ! i) (auto_item w (snapshot ! i) target))
          (updateImageInList (img_id (snapshot ! i)) mark_optimizing st))"
  from Suc have "n = length snapshot - (i + 1)" "i + 1 \<le> length snapshot" by simp_all
  from Suc.hyps(1) [OF this, of ?st1] obtain st' where
    st': "batch_loop w snapshot target (i + 1) ?st1 = Resolve st'"
    "progressReports st' = progressReports ?st1 @
       map (report_at (length snapshot)) [Suc (i + 1)..<Suc (length snapshot)]"
    by blast
  have "[Suc i..<Suc (length snapshot)] = Suc i # [Suc (i + 1)..<Suc (length snapshot)]"
    using lt by (simp add: upt_conv_Cons)
  with st' lt show ?case
    by (simp add: batch_loop_step)
qed

lemma update_by_id:
  assumes d: "distinct (map img_id snapshot)"
    and len: "length xs = length snapshot"
    and ids: "\<forall>j < length snapshot. img_id (xs ! j) = img_id (snapshot ! j)"
    and i: "i < length snapshot"
  shows "map (\<lambda>x. if img_id x = img_id (snapshot ! i) then f x else x) xs = xs[i := f (xs ! i)]"
proof (rule nth_equalityI)
  show "length (map (\<lambda>x. if img_id x = img_id (snapshot ! i) then f x else x) xs)
      = length (xs[i := f (xs ! i)])"
    by simp
next
  fix j
  assume "j < length (map (\<lambda>x. if img_id x = img_id (snapshot ! i) then f x else x) xs)"
  then have j: "j < length snapshot" using len by simp
  have "(img_id (snapshot ! j) = img_id (snapshot ! i)) = (j = i)"
    using d i j nth_eq_iff_index_eq [of "map img_id snapshot" j i] by simp
  with ids j have "(img_id (xs ! j) = img_id (snapshot ! i)) = (j = i)" by simp
  with j len show "map (\<lambda>x. if img_id x = img_id (snapshot ! i) then f x else x) xs ! j
      = xs[i := f (xs ! i)] ! j"
    by (simp add: nth_list_update)
qed

lemma img_id_settle [simp]: "img_id (settle img outcome x) = img_id x"
  by (simp add: settle_def mark_completed_def mark_error_def
      split: promise.splits option.splits prod.splits)

lemma img_id_optimizing [simp]: "img_id (mark_optimizing x) = img_id x"
  by (simp add: mark_optimizing_def)

text \<open>One turn of the loop changes the item at its own index and no other.\<close>

lemma turn_imageList:
  assumes d: "distinct (map img_id snapshot)"
    and len: "length (imageList st) = length snapshot"
    and ids: "\<forall>j < length snapshot. img_id (imageList st ! j) = img_id (snapshot ! j)"
    and i: "i < length snapshot"
  shows "imageList (updateImageInList (img_id (snapshot ! i)) g
           (updateImageInList (img_id (snapshot ! i)) mark_optimizing st))
         = (imageList st)[i := g (mark_optimizing (imageList st ! i))]"
proof -
  let ?xs = "imageList st"
  have one: "imageList (updateImageInList (img_id (snapshot ! i)) mark_optimizing st)
      = ?xs[i := mark_optimizing (?xs ! i)]"
    unfolding updateImageInList_def using update_by_id [OF d len ids i] by simp
  have ids': "\<forall>j < length snapshot.
      img_id (?xs[i := mark_optimizing (?xs ! i)] ! j) = img_id (snapshot ! j)"
    using ids len i by (auto simp: nth_list_update)
  have "map (\<lambda>x. if img_id x = img_id (snapshot ! i) then g x else x)
          (?xs[i := mark_optimizing (?xs ! i)])
      = (?xs[i := mark_optimizing (?xs ! i)])[i := g (?xs[i := mark_optimizing (?xs ! i)] ! i)]"
    by (rule update_by_id [OF d _ ids' i]) (simp add: len)
  with one i len show ?thesis
    by (simp add: updateImageInList_def)
qed

lemma batch_loop_items:
  assumes d: "distinct (map img_id snapshot)"
  shows "i \<le> length snapshot \<Longrightarrow> length (imageList st) = length snapshot \<Longrightarrow>
     \<forall>j < length snapshot. img_id (imageList st ! j) = img_id (snapshot ! j) \<Longrightarrow>
     \<exists>st'. batch_loop w snapshot target i st = Resolve st'
       \<and> length (imageList st') = length snapshot
       \<and> appState st' = appState st
       \<and> (\<forall>j < length snapshot. imageList st' ! j =
             (if i \<le> j
              then settle (snapshot ! j) (auto_item w (snapshot ! j) target)
                     (mark_optimizing (imageList st ! j))
              else imageList st ! j))"
proof (induction n \<equiv> "length snapshot - i" arbitrary: i st)
  case 0
  then have "\<not> i < length snapshot" by simp
  with 0 show ?case by (simp add: batch_loop_done)
next
  case (Suc n)
  then have lt: "i < length snapshot" by simp
  let ?g = "settle (snapshot ! i) (auto_item w (snapshot ! i) target)"
  let ?st1 = "setProcessingProgress (report_at (length snapshot) (i + 1))
       (updateImageInList (img_id (snapshot ! i)) ?g
          (updateImageInList (img_id (snapshot ! i)) mark_optimizing st))"
  have list1: "imageList ?st1 = (imageList st)[i := ?g (mark_optimizing (imageList st ! i))]"
    using turn_imageList [OF d Suc.prems(2,3) lt] by simp
  have len1: "length (imageList ?st1) = length snapshot"
    using list1 Suc.prems(2) by simp
  have ids1: "\<forall>j < length snapshot. img_id (imageList ?st1 ! j) = img_id (snapshot ! j)"
    using list1 Suc.prems(2,3) lt by (auto simp: nth_list_update)
  have app1: "appState ?st1 = appState st"
    by (simp add: setProcessingProgress_def)
  from Suc have "n = length snapshot - (i + 1)" "i + 1 \<le> length snapshot" by simp_all
  from Suc.hyps(1) [OF this len1 ids1] obtain st' where
    run: "batch_loop w snapshot target (i + 1) ?st1 = Resolve st'"
    and len': "length (imageList st') = length snapshot"
    and app': "appState st' = appState ?st1"
    and items: "\<forall>j < length snapshot. imageList st' ! j =
             (if i + 1 \<le> j
              then settle (snapshot ! j) (auto_item w (snapshot ! j) target)
                     (mark_optimizing (imageList ?st1 ! j))
              else imageList ?st1 ! j)"
    by blast
  have "\<forall>j < length snapshot. imageList st' ! j =
             (if i \<le> j
              then settle (snapshot ! j) (auto_item w (snapshot ! j) target)
                     (mark_optimizing (imageList st ! j))
              else imageList st ! j)"
  proof (intro allI impI)
    fix j assume j: "j < length snapshot"
    consider "j < i" | "j = i" | "i < j" by linarith
    then show "imageList st' ! j =
             (if i \<le> j
              then settle (snapshot ! j) (auto_item w (snapshot ! j) target)
                     (mark_optimizing (imageList st ! j))
              else imageList st ! j)"
    proof cases
      case 1
      with items j list1 Suc.prems(2) lt show ?thesis by (simp add: nth_list_update)
    next
      case 2
      with items j list1 Suc.prems(2) lt show ?thesis by (simp add: nth_list_update)
    next
      case 3
      with items j list1 Suc.prems(2) lt show ?thesis by (simp add: nth_list_update)
    qed
  qed
  with run len' app' app1 lt show ?case
    by (simp add: batch_loop_step)
qed

lemma batch_settles:
  "\<exists>st'. applyAutoToBatch w st = Resolve st'"
proof (cases "imageList st = []")
  case True
  then show ?thesis by (simp add: applyAutoToBatch_def)
next
  case False
  obtain st1 where "batch_loop w (imageList st) targetLimit 0
      (setProcessingProgress 0 (setAppState PROCESSING st)) = Resolve st1"
    using batch_loop_reports [of 0 "imageList st" w targetLimit] by blast
  with False show ?thesis by (simp add: applyAutoToBatch_def)
qed

lemma batch_items:
  assumes d: "distinct (map img_id (imageList st))"
  shows "\<exists>st'. applyAutoToBatch w st = Resolve st'
     \<and> imageList st' = map (final_item w targetLimit) (imageList st)"
proof (cases "imageList st = []")
  case True
  then show ?thesis by (simp add: applyAutoToBatch_def)
next
  case False
  let ?st0 = "setProcessingProgress 0 (setAppState PROCESSING st)"
  have l0: "imageList ?st0 = imageList st"
    by (simp add: setAppState_def)
  obtain st1 where run: "batch_loop w (imageList st) targetLimit 0 ?st0 = Resolve st1"
    and len: "length (imageList st1) = length (imageList st)"
    and items: "\<forall>j < length (imageList st). imageList st1 ! j =
             (if 0 \<le> j
              then settle (imageList st ! j) (auto_item w (imageList st ! j) targetLimit)
                     (mark_optimizing (imageList ?st0 ! j))
              else imageList ?st0 ! j)"
    using batch_loop_items [OF d, of 0 ?st0 w targetLimit] l0 by auto
  have "imageList st1 = map (final_item w targetLimit) (imageList st)"
    using len items l0 by (intro nth_equalityI) (simp_all add: final_item_def)
  with run False show ?thesis
    by (simp add: applyAutoToBatch_def setAppState_def)
qed

lemma report_at_mono: "0 < n \<Longrightarrow> i < j \<Longrightarrow> report_at n i < report_at n j"
  by (simp add: report_at_def divide_strict_right_mono)

lemma reports_increasing:
  assumes "0 < n"
  shows "sorted_wrt (<) (map (report_at n) [1..<Suc n])"
proof -
  have "sorted_wrt (\<lambda>i j. report_at n i < report_at n j) [1..<Suc n]"
    by (rule sorted_wrt_mono_rel [OF _ sorted_wrt_upt]) (simp add: report_at_mono assms)
  then show ?thesis
    unfolding sorted_wrt_map .
qed

lemma report_at_pos: "0 < n \<Longrightarrow> 0 < i \<Longrightarrow> 0 < report_at n i"
  by (simp add: report_at_def)

lemma reports_from_zero:
  assumes "0 < n"
  shows "sorted_wrt (<) (0 # map (report_at n) [1..<Suc n])"
  using reports_increasing [OF assms] assms
  by (auto simp: report_at_pos simp del: upt_Suc)

text \<open>
  Claim C6, as the code has it. Every turn of the loop ends with one progress report,
  whatever the outcome of its item; over a non-empty queue of n items the loop makes
  exactly n reports, the i-th being \<open>(i / n) * 100\<close>. \<open>applyAutoToBatch\<close> first
  resets the progress to 0 and then runs the loop, so that the progress signal receives
  n + 1 values, strictly increasing from 0 through \<open>(1 / n) * 100\<close> to 100.
\<close>

theorem progress_reports:
  assumes "imageList st \<noteq> []"
  shows "(\<exists>s1. batch_body w snapshot target i s = Resolve s1
           \<and> progressReports s1 = progressReports s @ [report_at (length snapshot) (i + 1)])
       \<and> (\<exists>st1. batch_loop w (imageList st) target 0 st = Resolve st1
           \<and> progressReports st1 = progressReports st @
                map (report_at (length (imageList st))) [1..<Suc (length (imageList st))])
       \<and> (\<exists>st'. applyAutoToBatch w st = Resolve st'
           \<and> progressReports st' = progressReports st @ 0 #
                map (report_at (length (imageList st))) [1..<Suc (length (imageList st))])
       \<and> length (map (report_at (length (imageList st))) [1..<Suc (length (imageList st))])
           = length (imageList st)
       \<and> length (0 # map (report_at (length (imageList st))) [1..<Suc (length (imageList st))])
           = length (imageList st) + 1
       \<and> sorted_wrt (<)
           (0 # map (report_at (length (imageList st))) [1..<Suc (length (imageList st))])
       \<and> report_at (length (imageList st)) 1 = 1 / of_nat (length (imageList st)) * 100
       \<and> report_at (length (imageList st)) (length (imageList st)) = 100"
proof -
  let ?n = "length (imageList st)"
  from assms have n: "0 < ?n" by simp
  have turn: "\<exists>s1. batch_body w snapshot target i s = Resolve s1
           \<and> progressReports s1 = progressReports s @ [report_at (length snapshot) (i + 1)]"
    by (simp add: batch_body_eq)
  have loop: "\<exists>st1. batch_loop w (imageList st) target 0 st = Resolve st1
           \<and> progressReports st1 = progressReports st @ map (report_at ?n) [1..<Suc ?n]"
    using batch_loop_reports [of 0 "imageList st" w target st] by simp
  let ?st0 = "setProcessingProgress 0 (setAppState PROCESSING st)"
  obtain st1 where run: "batch_loop w (imageList st) targetLimit 0 ?st0 = Resolve st1"
    and rep: "progressReports st1 = progressReports ?st0 @ map (report_at ?n) [1..<Suc ?n]"
    using batch_loop_reports [of 0 "imageList st" w targetLimit ?st0] by auto
  from run rep assms have whole: "\<exists>st'. applyAutoToBatch w st = Resolve st'
           \<and> progressReports st' = progressReports st @ 0 # map (report_at ?n) [1..<Suc ?n]"
    by (simp add: applyAutoToBatch_def setAppState_def)
  from n have ends: "report_at ?n 1 = 1 / of_nat ?n * 100" "report_at ?n ?n = 100"
    by (simp_all add: report_at_def)
  have len: "length (map (report_at ?n) [1..<Suc ?n]) = ?n"
    by (simp del: upt_Suc)
  have len1: "length (0 # map (report_at ?n) [1..<Suc ?n]) = ?n + 1"
    by (simp del: upt_Suc)
  show ?thesis
    by (intro conjI turn loop whole len len1 reports_from_zero [OF n] ends)
qed

theorem progress_reports_witness:
  "imageList (demo_app [demo_image, demo_image2, demo_image, demo_image2]) \<noteq> []
   \<and> final_reports (applyAutoToBatch demo_world
        (demo_app [demo_image, demo_image2, demo_image, demo_image2]))
       = Some [0, 25, 50, 75, 100]"
proof -
  let ?q = "[demo_image, demo_image2, demo_image, demo_image2]"
  let ?st = "demo_app ?q"
  have ne: "imageList ?st \<noteq> []"
    by (simp add: demo_app_def)
  from progress_reports [OF ne, where w = demo_world and target = targetLimit]
  obtain st' where "applyAutoToBatch demo_world ?st = Resolve st'"
    and "progressReports st' = progressReports ?st @ 0 #
           map (report_at (length (imageList ?st))) [1..<Suc (length (imageList ?st))]"
    by blast
  then have "final_reports (applyAutoToBatch demo_world ?st)
      = Some (0 # map (report_at (length ?q)) [1..<Suc (length ?q)])"
    by (simp add: final_reports_def demo_app_def del: upt_Suc)
  also have "0 # map (report_at (length ?q)) [1..<Suc (length ?q)] = [0, 25, 50, 75, 100]"
    by code_simp
  finally show ?thesis using ne by simp
qed

text \<open>
  Claim C6 as stated fails: over a queue of two items the progress signal receives three
  values, the first of them 0.
\<close>

theorem progress_reset_first:
  "length (imageList (demo_app [demo_image, demo_image2])) = 2
   \<and> final_reports (applyAutoToBatch demo_world (demo_app [demo_image, demo_image2]))
       = Some [0, 50, 100]"
  by code_simp

lemma terminal_settle: "terminal (settle img outcome x)"
  by (auto simp: terminal_def settle_def mark_completed_def mark_error_def
      split: promise.splits option.splits)

lemma turn_list:
  "imageList (updateImageInList ident g (updateImageInList ident mark_optimizing st))
   = map (\<lambda>x. if img_id x = ident then g (mark_optimizing x) else x) (imageList st)"
  by (simp add: updateImageInList_def comp_def cong: if_cong)

lemma turn_failed_status:
  assumes "item_failed w target (snapshot ! i)"
    and "batch_body w snapshot target i s = Resolve s1"
    and "x \<in> set (imageList s1)" and "img_id x = img_id (snapshot ! i)"
  shows "img_status x = error"
proof -
  let ?g = "settle (snapshot ! i) (auto_item w (snapshot ! i) target)"
  from assms(1) have g: "?g = mark_error"
    by (auto simp: item_failed_def settle_def split: promise.splits option.splits)
  from assms(2) have "imageList s1 =
      map (\<lambda>x. if img_id x = img_id (snapshot ! i) then ?g (mark_optimizing x) else x)
        (imageList s)"
    unfolding batch_body_eq by (auto simp: turn_list)
  with assms(3) obtain y where "y \<in> set (imageList s)"
    and x: "x = (if img_id y = img_id (snapshot ! i) then ?g (mark_optimizing y) else y)"
    by auto
  with assms(4) have "x = mark_error (mark_optimizing y)"
    by (auto simp: g split: if_splits)
  then show ?thesis by (simp add: mark_error_def)
qed

lemma batch_loop_terminal:
  "i \<le> length snapshot \<Longrightarrow> map img_id (imageList st) = map img_id snapshot \<Longrightarrow>
   \<forall>x \<in> set (imageList st). img_id x \<in> img_id ` set (take i snapshot) \<longrightarrow> terminal x \<Longrightarrow>
   \<exists>st'. batch_loop w snapshot target i st = Resolve st'
     \<and> map img_id (imageList st') = map img_id snapshot
     \<and> (\<forall>x \<in> set (imageList st'). terminal x)"
proof (induction n \<equiv> "length snapshot - i" arbitrary: i st)
  case 0
  then have i: "i = length snapshot" by simp
  have "\<forall>x \<in> set (imageList st). terminal x"
  proof
    fix x assume x: "x \<in> set (imageList st)"
    then have "img_id x \<in> set (map img_id (imageList st))" by simp
    with 0(3) have "img_id x \<in> img_id ` set (take i snapshot)"
      by (simp add: i)
    with 0(4) x show "terminal x" by blast
  qed
  with 0 i show ?case by (simp add: batch_loop_done)
next
  case (Suc n)
  then have lt: "i < length snapshot" by simp
  let ?g = "settle (snapshot ! i) (auto_item w (snapshot ! i) target)"
  let ?st1 = "setProcessingProgress (report_at (length snapshot) (i + 1))
       (updateImageInList (img_id (snapshot ! i)) ?g
          (updateImageInList (img_id (snapshot ! i)) mark_optimizing st))"
  have list1: "imageList ?st1 =
      map (\<lambda>x. if img_id x = img_id (snapshot ! i) then ?g (mark_optimizing x) else x)
        (imageList st)"
    by (simp add: turn_list)
  have ids1: "map img_id (imageList ?st1) = map img_id snapshot"
    unfolding list1 using Suc.prems(2) by (simp add: comp_def if_distrib cong: if_cong)
  have inv1: "\<forall>x \<in> set (imageList ?st1).
      img_id x \<in> img_id ` set (take (i + 1) snapshot) \<longrightarrow> terminal x"
  proof (intro ballI impI)
    fix x assume x: "x \<in> set (imageList ?st1)"
      and idx: "img_id x \<in> img_id ` set (take (i + 1) snapshot)"
    from x obtain y where y: "y \<in> set (imageList st)"
      and xy: "x = (if img_id y = img_id (snapshot ! i) then ?g (mark_optimizing y) else y)"
      unfolding list1 by auto
    show "terminal x"
    proof (cases "img_id y = img_id (snapshot ! i)")
      case True
      with xy show ?thesis by (simp add: terminal_settle)
    next
      case False
      with xy have "x = y" by simp
      moreover from idx lt have
        "img_id x \<in> img_id ` set (take i snapshot) \<or> img_id x = img_id (snapshot ! i)"
        by (auto simp: take_Suc_conv_app_nth)
      ultimately have "img_id y \<in> img_id ` set (take i snapshot)"
        using False by simp
      with Suc.prems(3) y \<open>x = y\<close> show ?thesis by blast
    qed
  qed
  from Suc have "n = length snapshot - (i + 1)" "i + 1 \<le> length snapshot" by simp_all
  from Suc.hyps(1) [OF this ids1 inv1] lt show ?case
    by (simp add: batch_loop_step)
qed

lemma batch_terminal:
  "\<exists>st'. applyAutoToBatch w st = Resolve st'
     \<and> length (imageList st') = length (imageList st)
     \<and> (\<forall>x \<in> set (imageList st'). terminal x)"
proof (cases "imageList st = []")
  case True
  then show ?thesis by (simp add: applyAutoToBatch_def)
next
  case False
  let ?st0 = "setProcessingProgress 0 (setAppState PROCESSING st)"
  have l0: "imageList ?st0 = imageList st"
    by (simp add: setAppState_def)
  have "\<exists>st'. batch_loop w (imageList st) targetLimit 0 ?st0 = Resolve st'
     \<and> map img_id (imageList st') = map img_id (imageList st)
     \<and> (\<forall>x \<in> set (imageList st'). terminal x)"
    by (rule batch_loop_terminal) (simp_all add: setAppState_def)
  then obtain st1 where run: "batch_loop w (imageList st) targetLimit 0 ?st0 = Resolve st1"
    and ids: "map img_id (imageList st1) = map img_id (imageList st)"
    and t: "\<forall>x \<in> set (imageList st1). terminal x"
    by blast
  from ids have "length (imageList st1) = length (imageList st)"
    by (rule map_eq_imp_length_eq)
  with run t False show ?thesis
    by (simp add: applyAutoToBatch_def setAppState_def)
qed

lemma final_item_failed:
  "item_failed w target img \<Longrightarrow>
   final_item w target img = mark_error (mark_optimizing img)"
  by (auto simp: item_failed_def final_item_def settle_def
      split: promise.splits option.splits)

lemma final_item_cases:
  "(img_status (final_item w target img) = completed
      \<and> img_result (final_item w target img) \<noteq> None)
   \<or> (img_status (final_item w target img) = error
      \<and> img_result (final_item w target img) = img_result img)"
  by (auto simp: final_item_def settle_def mark_completed_def mark_error_def
      mark_optimizing_def split: promise.splits option.splits)

text \<open>
  Claim C7. Whatever the outcome of an item's turn, the turn resolves and the loop goes
  on with the next index; when the turn failed (the search found nothing, or the file
  reader, the Analyzer or the Encoder threw), the items with that id have status error
  after it. The batch always resolves, and with ids that identify the items every item
  ends as its own turn leaves it, whatever happened to the items before it: in error
  when its turn failed.
\<close>

theorem failure_does_not_stop_batch:
  "(\<exists>s1. batch_body w snapshot target i s = Resolve s1
      \<and> (i < length snapshot \<longrightarrow>
           batch_loop w snapshot target i s = batch_loop w snapshot target (i + 1) s1)
      \<and> (item_failed w target (snapshot ! i) \<longrightarrow>
           (\<forall>x \<in> set (imageList s1).
              img_id x = img_id (snapshot ! i) \<longrightarrow> img_status x = error)))
   \<and> (\<exists>st'. applyAutoToBatch w st = Resolve st'
      \<and> (distinct (map img_id (imageList st)) \<longrightarrow>
           length (imageList st') = length (imageList st)
         \<and> (\<forall>j < length (imageList st).
               imageList st' ! j = final_item w targetLimit (imageList st ! j)
             \<and> (item_failed w targetLimit (imageList st ! j)
                  \<longrightarrow> img_status (imageList st' ! j) = error))))"
proof (rule conjI)
  obtain s1 where s1: "batch_body w snapshot target i s = Resolve s1"
    by (simp add: batch_body_eq)
  have "i < length snapshot \<longrightarrow>
      batch_loop w snapshot target i s = batch_loop w snapshot target (i + 1) s1"
    using s1 by (subst batch_loop.simps) simp
  moreover have "item_failed w target (snapshot ! i) \<longrightarrow>
      (\<forall>x \<in> set (imageList s1). img_id x = img_id (snapshot ! i) \<longrightarrow> img_status x = error)"
    using turn_failed_status [OF _ s1] by blast
  ultimately show "\<exists>s1. batch_body w snapshot target i s = Resolve s1
      \<and> (i < length snapshot \<longrightarrow>
           batch_loop w snapshot target i s = batch_loop w snapshot target (i + 1) s1)
      \<and> (item_failed w target (snapshot ! i) \<longrightarrow>
           (\<forall>x \<in> set (imageList s1).
              img_id x = img_id (snapshot ! i) \<longrightarrow> img_status x = error))"
    using s1 by blast
next
  show "\<exists>st'. applyAutoToBatch w st = Resolve st'
      \<and> (distinct (map img_id (imageList st)) \<longrightarrow>
           length (imageList st') = length (imageList st)
         \<and> (\<forall>j < length (imageList st).
               imageList st' ! j = final_item w targetLimit (imageList st ! j)
             \<and> (item_failed w targetLimit (imageList st ! j)
                  \<longrightarrow> img_status (imageList st' ! j) = error)))"
  proof (cases "distinct (map img_id (imageList st))")
    case True
    from batch_items [OF True, of w] obtain st' where
      run: "applyAutoToBatch w st = Resolve st'"
      and items: "imageList st' = map (final_item w targetLimit) (imageList st)"
      by blast
    have "\<forall>j < length (imageList st).
           imageList st' ! j = final_item w targetLimit (imageList st ! j)
         \<and> (item_failed w targetLimit (imageList st ! j)
              \<longrightarrow> img_status (imageList st' ! j) = error)"
      using items by (auto simp: final_item_failed mark_error_def)
    with run items show ?thesis by simp
  next
    case False
    with batch_settles [of w st] show ?thesis by simp
  qed
qed

lemma demo_first_fails: "item_failed demo_world targetLimit demo_image"
  by code_simp

lemma demo_second_found:
  "auto_item demo_world demo_image2 targetLimit = Resolve (Some (default_analysis, demo_b2_result))"
  by code_simp

theorem failure_does_not_stop_batch_witness:
  "distinct (map img_id (imageList (demo_app [demo_image, demo_image2])))
   \<and> item_failed demo_world targetLimit demo_image
   \<and> final_statuses (applyAutoToBatch demo_world (demo_app [demo_image, demo_image2]))
       = Some [error, completed]"
proof -
  let ?st = "demo_app [demo_image, demo_image2]"
  have d: "distinct (map img_id (imageList ?st))"
    by code_simp
  from failure_does_not_stop_batch [where w = demo_world and st = "?st", THEN conjunct2] d
  obtain st' where
    run: "applyAutoToBatch demo_world ?st = Resolve st'"
    and len: "length (imageList st') = length (imageList ?st)"
    and items: "\<forall>j < length (imageList ?st).
           imageList st' ! j = final_item demo_world targetLimit (imageList ?st ! j)
         \<and> (item_failed demo_world targetLimit (imageList ?st ! j)
              \<longrightarrow> img_status (imageList st' ! j) = error)"
    by blast
  have l: "imageList ?st = [demo_image, demo_image2]"
    by (simp add: demo_app_def)
  from items [rule_format, of 0] l demo_first_fails
  have s0: "img_status (imageList st' ! 0) = error"
    by auto
  from items [rule_format, of 1] l
  have "imageList st' ! 1 = final_item demo_world targetLimit demo_image2"
    by auto
  then have s1: "img_status (imageList st' ! 1) = completed"
    by (simp add: final_item_def demo_second_found settle_def mark_completed_def)
  from len l obtain x y where xy: "imageList st' = [x, y]"
    by (cases "imageList st'"; cases "tl (imageList st')") auto
  with s0 s1 run have "final_statuses (applyAutoToBatch demo_world ?st) = Some [error, completed]"
    by (simp add: final_statuses_def)
  with d demo_first_fails show ?thesis by simp
qed

text \<open>
  Claim C8, as the code has it. After the batch every item is in one of two states:
  completed with a result attached, or in error. The error path sets the status and
  nothing else: with ids that identify the items, an item in error carries the result
  field it had before the batch.
\<close>

theorem terminal_states:
  "\<exists>st'. applyAutoToBatch w st = Resolve st'
     \<and> length (imageList st') = length (imageList st)
     \<and> (\<forall>x \<in> set (imageList st'). terminal x)
     \<and> (distinct (map img_id (imageList st)) \<longrightarrow>
          (\<forall>j < length (imageList st).
             (img_status (imageList st' ! j) = completed
                \<and> img_result (imageList st' ! j) \<noteq> None)
           \<or> (img_status (imageList st' ! j) = error
                \<and> img_result (imageList st' ! j) = img_result (imageList st ! j))))"
proof -
  from batch_terminal [of w st] obtain st' where
    run: "applyAutoToBatch w st = Resolve st'"
    and len: "length (imageList st') = length (imageList st)"
    and t: "\<forall>x \<in> set (imageList st'). terminal x"
    by blast
  have "\<forall>j < length (imageList st).
           (img_status (imageList st' ! j) = completed
              \<and> img_result (imageList st' ! j) \<noteq> None)
         \<or> (img_status (imageList st' ! j) = error
              \<and> img_result (imageList st' ! j) = img_result (imageList st ! j))"
    if d: "distinct (map img_id (imageList st))"
  proof -
    from batch_items [OF d, of w] run
    have "imageList st' = map (final_item w targetLimit) (imageList st)"
      by auto
    then show ?thesis
      using final_item_cases by simp
  qed
  with run len t show ?thesis by blast
qed

text \<open>
  Claim C8 as stated fails: an item that carried a result before the batch (the live
  preview attaches one) and for which the search finds nothing ends in error with that
  result still attached.
\<close>

theorem error_keeps_old_result:
  "final_statuses (applyAutoToBatch demo_world (demo_app [previewed_image])) = Some [error]
   \<and> final_results (applyAutoToBatch demo_world (demo_app [previewed_image]))
       = Some [Some demo3_result]"
  by code_simp

theorem terminal_states_witness:
  "distinct (map img_id (imageList (demo_app [previewed_image, demo_image2])))
   \<and> final_statuses (applyAutoToBatch demo_world (demo_app [previewed_image, demo_image2]))
       = Some [error, completed]
   \<and> final_results (applyAutoToBatch demo_world (demo_app [previewed_image, demo_image2]))
       = Some [Some demo3_result, Some (demo_b2_result\<lparr>res_reduction := Num (399 / 4)\<rparr>)]"
proof -
  have d: "distinct (map img_id (imageList (demo_app [previewed_image, demo_image2])))"
    by code_simp
  have s: "final_statuses (applyAutoToBatch demo_world (demo_app [previewed_image, demo_image2]))
       = Some [error, completed]"
    by code_simp
  have r: "final_results (applyAutoToBatch demo_world (demo_app [previewed_image, demo_image2]))
       = Some [Some demo3_result, Some (demo_b2_result\<lparr>res_reduction := Num (399 / 4)\<rparr>)]"
    by code_simp
  from terminal_states [of demo_world "demo_app [previewed_image, demo_image2]"] d s r
  show ?thesis
    by simp
qed

lemma analyzeImage_absorbs:
  "newGoogleGenAI ai = None \<Longrightarrow> analysis_fails ai base64Image mimeType \<Longrightarrow>
   analyzeImage ai base64Image mimeType = Resolve default_analysis"
  by (auto simp: analyzeImage_def analysis_fails_def Let_def split: sum.splits)

text \<open>
  What the \<open>try\<close> block of \<open>analyzeImage\<close> absorbs: when the remote call or the
  parsing of its answer fails, \<open>analyzeImage\<close> resolves with the default analysis
  (quality 75, webp, full-frame crop, complexity 5); for an item with no cached analysis
  whose file was read, the search then runs with that default; and \<open>applyAutoToBatch\<close>
  always resolves.
\<close>

lemma try_block_absorbs:
  "(newGoogleGenAI ai = None \<and> analysis_fails ai base64Image mimeType \<longrightarrow>
      analyzeImage ai base64Image mimeType = Resolve default_analysis)
   \<and> recommendedQuality default_analysis = 75
   \<and> suggestedFormat default_analysis = Some ''webp''
   \<and> smartCropSuggestion default_analysis =
        Some \<lparr>crop_x = 0, crop_y = 0, crop_width = 100, crop_height = 100\<rparr>
   \<and> complexityScore default_analysis = 5
   \<and> (img_analysis img = None \<and> readAsDataURL w (img_file img) = Inr s
        \<and> newGoogleGenAI (sdk w) = None
        \<and> analysis_fails (sdk w) (nth_opt (split_str CHR '','' s) 1) (file_type (img_file img))
      \<longrightarrow> auto_item w img target =
            await (fst (iterativeCompressToTarget (canvas w) img default_analysis target))
              (\<lambda>result. Resolve (case result of
                                    None \<Rightarrow> None
                                  | Some r \<Rightarrow> Some (default_analysis, r))))
   \<and> (\<exists>st'. applyAutoToBatch w st = Resolve st')"
proof (intro conjI impI)
  assume "newGoogleGenAI ai = None \<and> analysis_fails ai base64Image mimeType"
  then show "analyzeImage ai base64Image mimeType = Resolve default_analysis"
    by (simp add: analyzeImage_absorbs)
next
  assume a: "img_analysis img = None \<and> readAsDataURL w (img_file img) = Inr s
        \<and> newGoogleGenAI (sdk w) = None
        \<and> analysis_fails (sdk w) (nth_opt (split_str CHR '','' s) 1) (file_type (img_file img))"
  then have "item_analysis w img = Resolve default_analysis"
    by (simp add: item_analysis_def fileToBase64_def analyzeImage_absorbs)
  then show "auto_item w img target =
            await (fst (iterativeCompressToTarget (canvas w) img default_analysis target))
              (\<lambda>result. Resolve (case result of
                                    None \<Rightarrow> None
                                  | Some r \<Rightarrow> Some (default_analysis, r)))"
    by (simp add: auto_item_def)
next
  show "\<exists>st'. applyAutoToBatch w st = Resolve st'"
    by (rule batch_settles)
qed (simp_all add: default_analysis_def)

lemma try_block_absorbs_demo:
  "newGoogleGenAI remote_down_sdk = None
   \<and> analysis_fails remote_down_sdk (Some ''AAAA'') ''image/png''
   \<and> analyzeImage remote_down_sdk (Some ''AAAA'') ''image/png'' = Resolve default_analysis
   \<and> auto_item demo_world demo_image2 targetLimit =
       Resolve (Some (default_analysis, demo_b2_result))"
proof -
  have a: "newGoogleGenAI remote_down_sdk = None"
    by (simp add: remote_down_sdk_def)
  have b: "analysis_fails remote_down_sdk (Some ''AAAA'') ''image/png''"
    by (simp add: analysis_fails_def remote_down_sdk_def)
  from try_block_absorbs [where ai = remote_down_sdk and base64Image = "Some ''AAAA''"
      and mimeType = "''image/png''", THEN conjunct1] a b
  have "analyzeImage remote_down_sdk (Some ''AAAA'') ''image/png'' = Resolve default_analysis"
    by simp
  with a b demo_second_found show ?thesis by simp
qed

text \<open>
  Claim C9. The code departs from it. The statement that builds the client stands one
  line before the \<open>try\<close> block whose \<open>catch\<close> returns the default analysis. When
  the remote call fails, one line further down, \<open>analyzeImage\<close> resolves with the
  default and the item is completed. When building the client throws, \<open>analyzeImage\<close>
  rejects: the batch driver receives the error instead of the default analysis, the
  search does not run, and the item ends in error although the search would have found
  a result.
\<close>

theorem analyzer_error_escapes:
  "analyzeImage remote_down_sdk (Some ''AAAA'') ''image/png'' = Resolve default_analysis
   \<and> analyzeImage keyless_sdk (Some ''AAAA'') ''image/png'' =
     Reject (Error ''An API Key must be set when running in a browser'')
   \<and> auto_item keyless_world demo_image2 targetLimit =
     Reject (Error ''An API Key must be set when running in a browser'')
   \<and> final_statuses (applyAutoToBatch keyless_world (demo_app [demo_image2])) = Some [error]
   \<and> final_statuses (applyAutoToBatch demo_world (demo_app [demo_image2])) = Some [completed]"
  by code_simp

end
